theory Spec2Isabelle
  imports Complex_Main "HOL-Library.Word" "HOL-Library.Log_Nat" "HOL-Library.Multiset"
    "HOL-Library.Sublist" "HOL-Library.Product_Lexorder"
begin

section \<open>Values of the host language\<close>

text \<open>
  A JavaScript string is a sequence of 16-bit code units; \<open>length\<close> counts code units.
  Indices and sizes are JavaScript numbers holding integers; they are modelled as
  unbounded \<open>int\<close>, which is exact below \<open>2 ^ 53\<close>.
\<close>

type_synonym jsstring = "16 word list"

text \<open>A string literal of the source, all of whose characters are ASCII.\<close>

definition js :: "string \<Rightarrow> jsstring" where
  "js s = map (\<lambda>c. of_nat (of_char c)) s"

text \<open>
  \<open>String.prototype.slice(start, end)\<close> and \<open>Array.prototype.slice(start, end)\<close>:
  a negative index counts from the end, both indices are clamped to \<open>[0, length]\<close>,
  and an empty range gives the empty sequence.
\<close>

definition js_slice :: "'a list \<Rightarrow> int \<Rightarrow> int \<Rightarrow> 'a list" where
  "js_slice xs start end' =
     (let len = int (length xs);
          from = (if start < 0 then max (len + start) 0 else min start len);
          to = (if end' < 0 then max (len + end') 0 else min end' len)
      in if from < to then take (nat (to - from)) (drop (nat from) xs) else [])"

text \<open>
  The code units that \<open>String.prototype.trim\<close> strips and that the regular expression
  class \<open>\s\<close> matches: the WhiteSpace and LineTerminator code points of ECMAScript.
\<close>

definition is_js_space :: "16 word \<Rightarrow> bool" where
  "is_js_space c \<longleftrightarrow>
     c \<in> {0x09, 0x0A, 0x0B, 0x0C, 0x0D, 0x20, 0xA0, 0x1680, 0x2028, 0x2029, 0x202F,
          0x205F, 0x3000, 0xFEFF}
     \<or> (0x2000 \<le> c \<and> c \<le> 0x200A)"

definition js_trim :: "jsstring \<Rightarrow> jsstring" where
  "js_trim s = rev (dropWhile is_js_space (rev (dropWhile is_js_space s)))"

text \<open>\<open>Array.prototype.join\<close> on an array of strings.\<close>

fun js_join :: "jsstring \<Rightarrow> jsstring list \<Rightarrow> jsstring" where
  "js_join sep [] = []"
| "js_join sep [x] = x"
| "js_join sep (x # y # ys) = x @ sep @ js_join sep (y # ys)"

text \<open>The decimal digits of a non-negative integer, as a template literal prints it.\<close>

fun dec :: "nat \<Rightarrow> jsstring" where
  "dec n = (if n < 10 then [of_nat (48 + n)] else dec (n div 10) @ [of_nat (48 + n mod 10)])"

text \<open>A thrown \<open>Error\<close>, with its message.\<close>

datatype js_error = JsError string

text \<open>
  \<open>Promise.all\<close> over the outcomes of the requests of one batch: the values in order
  when every request succeeds, a rejection otherwise. The rejection reported is that of
  the first failed request in list order (in the program: the first to fail in time).
\<close>

fun promise_all :: "('e + 'a) list \<Rightarrow> 'e + 'a list" where
  "promise_all [] = Inr []"
| "promise_all (Inl e # rs) = Inl e"
| "promise_all (Inr v # rs) = (case promise_all rs of Inl e \<Rightarrow> Inl e | Inr vs \<Rightarrow> Inr (v # vs))"

section \<open>Numbers\<close>

text \<open>
  A JavaScript number is an IEEE 754 binary64 value. \<open>Fin s m e\<close> is the finite value
  \<open>(-1)\<^sup>s * m * 2\<^sup>e\<close> (the sign \<open>s\<close> is \<open>True\<close> for a negative number), \<open>Inf s\<close> is
  an infinity and \<open>NaN\<close> is not-a-number. The values of the format are the normal numbers
  (\<open>2\<^sup>5\<^sup>2 \<le> m < 2\<^sup>5\<^sup>3\<close> and \<open>-1074 \<le> e \<le> 971\<close>), and the subnormal numbers and the zeros
  (\<open>m < 2\<^sup>5\<^sup>2\<close> and \<open>e = -1074\<close>); every operation below returns a value of the format.
\<close>

datatype double = NaN | Inf bool | Fin bool nat int

definition is_double :: "double \<Rightarrow> bool" where
  "is_double d =
     (case d of
        Fin s m e \<Rightarrow> m < 2 ^ 53 \<and> - 1074 \<le> e \<and> e \<le> 971 \<and> (m < 2 ^ 52 \<longrightarrow> e = - 1074)
      | _ \<Rightarrow> True)"

definition is_zero :: "double \<Rightarrow> bool" where
  "is_zero d = (case d of Fin s m e \<Rightarrow> m = 0 | _ \<Rightarrow> False)"

text \<open>The number literals \<open>0\<close> and \<open>1\<close>.\<close>

definition zero :: double where
  "zero = Fin False 0 (- 1074)"

definition one :: double where
  "one = Fin False (2 ^ 52) (- 52)"

text \<open>
  Rounding to nearest, ties to even: \<open>round_double s m e\<close> is the value of the format
  nearest to \<open>(-1)\<^sup>s * m * 2\<^sup>e\<close>, for any \<open>m\<close> and \<open>e\<close>. The exponent of the result is the one
  that leaves 53 bits of \<open>m\<close>, and not less than \<open>-1074\<close>; the bits below it are rounded
  off, and a result beyond the largest finite number is an infinity.
\<close>

definition pack :: "bool \<Rightarrow> nat \<Rightarrow> int \<Rightarrow> double" where
  "pack s q e =
     (if q = 2 ^ 53 then (if 971 < e + 1 then Inf s else Fin s (2 ^ 52) (e + 1))
      else if 971 < e then Inf s
      else Fin s q e)"

definition round_cut :: "bool \<Rightarrow> nat \<Rightarrow> nat \<Rightarrow> nat \<Rightarrow> int \<Rightarrow> double" where
  "round_cut s q r half e = pack s (if half < r \<or> (r = half \<and> odd q) then q + 1 else q) e"

definition round_at :: "bool \<Rightarrow> nat \<Rightarrow> int \<Rightarrow> int \<Rightarrow> double" where
  "round_at s m e e' =
     (if e' \<le> e then pack s (m * 2 ^ nat (e - e')) e'
      else round_cut s (m div 2 ^ nat (e' - e)) (m mod 2 ^ nat (e' - e))
             (2 ^ (nat (e' - e) - 1)) e')"

definition round_double :: "bool \<Rightarrow> nat \<Rightarrow> int \<Rightarrow> double" where
  "round_double s m e =
     (if m = 0 then Fin s 0 (- 1074)
      else round_at s m e (max (e + bitlen (int m) - 53) (- 1074)))"

definition signed :: "bool \<Rightarrow> int \<Rightarrow> int" where
  "signed s x = (if s then - x else x)"

fun dneg :: "double \<Rightarrow> double" where
  "dneg NaN = NaN"
| "dneg (Inf s) = Inf (\<not> s)"
| "dneg (Fin s m e) = Fin (\<not> s) m e"

text \<open>
  Addition: the exact sum of two finite numbers is an integer multiple of two to the
  smaller exponent, and is rounded. A zero added to a number that is not zero gives that
  number. An exact sum of zero is \<open>+0\<close>, unless both operands are \<open>-0\<close>.
\<close>

definition round_signed :: "int \<Rightarrow> int \<Rightarrow> double" where
  "round_signed v g = (if v = 0 then Fin False 0 (- 1074) else round_double (v < 0) (nat \<bar>v\<bar>) g)"

fun dadd :: "double \<Rightarrow> double \<Rightarrow> double" where
  "dadd NaN y = NaN"
| "dadd x NaN = NaN"
| "dadd (Inf s) (Inf t) = (if s = t then Inf s else NaN)"
| "dadd (Inf s) (Fin t n f) = Inf s"
| "dadd (Fin s m e) (Inf t) = Inf t"
| "dadd (Fin s m e) (Fin t n f) =
     (if m = 0 then (if n = 0 then Fin (s \<and> t) 0 (- 1074) else round_double t n f)
      else if n = 0 then round_double s m e
      else round_signed (signed s (int m * 2 ^ nat (e - min e f))
                         + signed t (int n * 2 ^ nat (f - min e f))) (min e f))"

definition dsub :: "double \<Rightarrow> double \<Rightarrow> double" where
  "dsub x y = dadd x (dneg y)"

fun dmul :: "double \<Rightarrow> double \<Rightarrow> double" where
  "dmul NaN y = NaN"
| "dmul x NaN = NaN"
| "dmul (Inf s) (Inf t) = Inf (s \<noteq> t)"
| "dmul (Inf s) (Fin t n f) = (if n = 0 then NaN else Inf (s \<noteq> t))"
| "dmul (Fin s m e) (Inf t) = (if m = 0 then NaN else Inf (s \<noteq> t))"
| "dmul (Fin s m e) (Fin t n f) = round_double (s \<noteq> t) (m * n) (e + f)"

text \<open>
  Division: the quotient of the mantissas is taken with 108 more bits, which leaves at
  least 56 bits of quotient for mantissas below \<open>2\<^sup>5\<^sup>3\<close>. \<open>round_sticky s q exact e\<close> rounds a
  number whose leading part is \<open>q * 2\<^sup>e\<close>: one more bit after \<open>q\<close> records whether anything
  is left below it, so that the rounding is that of the exact quotient.
\<close>

definition round_sticky :: "bool \<Rightarrow> nat \<Rightarrow> bool \<Rightarrow> int \<Rightarrow> double" where
  "round_sticky s q exact e = round_double s (2 * q + (if exact then 0 else 1)) (e - 1)"

fun ddiv :: "double \<Rightarrow> double \<Rightarrow> double" where
  "ddiv NaN y = NaN"
| "ddiv x NaN = NaN"
| "ddiv (Inf s) (Inf t) = NaN"
| "ddiv (Inf s) (Fin t n f) = Inf (s \<noteq> t)"
| "ddiv (Fin s m e) (Inf t) = Fin (s \<noteq> t) 0 (- 1074)"
| "ddiv (Fin s m e) (Fin t n f) =
     (if n = 0 then (if m = 0 then NaN else Inf (s \<noteq> t))
      else round_sticky (s \<noteq> t) ((m * 2 ^ 108) div n) ((m * 2 ^ 108) mod n = 0)
             (e - f - 108))"

text \<open>The integer square root, two bits of the argument for one bit of the root.\<close>

definition isqrt_step :: "nat \<Rightarrow> nat \<Rightarrow> nat" where
  "isqrt_step r n = (if (r + 1) * (r + 1) \<le> n then r + 1 else r)"

function isqrt :: "nat \<Rightarrow> nat" where
  "isqrt n = (if n < 2 then n else isqrt_step (2 * isqrt (n div 4)) n)"
  by pat_completeness auto
termination
  by (relation "measure (\<lambda>n. n)") auto

declare isqrt.simps [simp del]

text \<open>
  \<open>Math.sqrt\<close>: the mantissa is scaled by a power of two that makes the exponent even and
  leaves at least 110 bits, and the last bit of the rounded number records whether the
  integer root is exact.
\<close>

definition sqrt_scaled :: "nat \<Rightarrow> nat \<Rightarrow> int \<Rightarrow> double" where
  "sqrt_scaled r M t = round_sticky False r (r * r = M) t"

fun dsqrt :: "double \<Rightarrow> double" where
  "dsqrt NaN = NaN"
| "dsqrt (Inf s) = (if s then NaN else Inf False)"
| "dsqrt (Fin s m e) =
     (if m = 0 then Fin s 0 (- 1074)
      else if s then NaN
      else sqrt_scaled (isqrt (m * 2 ^ nat (110 + e mod 2))) (m * 2 ^ nat (110 + e mod 2))
             ((e - (110 + e mod 2)) div 2))"

text \<open>The comparisons of numbers: every comparison with \<open>NaN\<close> is false, and \<open>-0 = +0\<close>.\<close>

fun dless :: "double \<Rightarrow> double \<Rightarrow> bool" where
  "dless NaN y = False"
| "dless x NaN = False"
| "dless (Inf s) (Inf t) = (s \<and> \<not> t)"
| "dless (Inf s) (Fin t n f) = s"
| "dless (Fin s m e) (Inf t) = (\<not> t)"
| "dless (Fin s m e) (Fin t n f) =
     (signed s (int m * 2 ^ nat (e - min e f)) < signed t (int n * 2 ^ nat (f - min e f)))"

fun is_NaN :: "double \<Rightarrow> bool" where
  "is_NaN NaN = True"
| "is_NaN x = False"

definition dle :: "double \<Rightarrow> double \<Rightarrow> bool" where
  "dle x y \<longleftrightarrow> \<not> is_NaN x \<and> \<not> is_NaN y \<and> \<not> dless y x"

text \<open>
  Two measures of a number for the proofs: an exponent within the format, and a key in a
  linear order that follows the comparison of numbers other than \<open>NaN\<close>.
\<close>

definition exp_ok :: "double \<Rightarrow> bool" where
  "exp_ok d = (case d of Fin s m e \<Rightarrow> - 1074 \<le> e | _ \<Rightarrow> True)"

fun order_key :: "double \<Rightarrow> int \<times> int" where
  "order_key NaN = (2, 0)"
| "order_key (Inf s) = (if s then (- 1, 0) else (1, 0))"
| "order_key (Fin s m e) = (0, signed s (int m * 2 ^ nat (e + 1074)))"

section \<open>Cosine similarity\<close>

text \<open>
  \<^verbatim>\<open>
  function cosineSimilarity(a, b) {
    const dot = a.reduce((sum, val, i) => sum + val * b[i], 0);
    const magA = Math.sqrt(a.reduce((sum, val) => sum + val * val, 0));
    const magB = Math.sqrt(b.reduce((sum, val) => sum + val * val, 0));
    return dot / (magA * magB);
  }
  \<close>
  An index beyond the end of \<open>b\<close> reads \<open>undefined\<close>, and the product of a number and
  \<open>undefined\<close> is \<open>NaN\<close>.
\<close>

definition js_nth :: "double list \<Rightarrow> nat \<Rightarrow> double" where
  "js_nth b i = (if i < length b then b ! i else NaN)"

definition dot_product :: "double list \<Rightarrow> double list \<Rightarrow> double" where
  "dot_product a b = foldl (\<lambda>sum (i, val). dadd sum (dmul val (js_nth b i))) zero (enumerate 0 a)"

definition sum_squares :: "double list \<Rightarrow> double" where
  "sum_squares a = foldl (\<lambda>sum val. dadd sum (dmul val val)) zero a"

definition cosineSimilarity :: "double list \<Rightarrow> double list \<Rightarrow> double" where
  "cosineSimilarity a b =
     (let dot = dot_product a b;
          magA = dsqrt (sum_squares a);
          magB = dsqrt (sum_squares b)
      in ddiv dot (dmul magA magB))"

section \<open>The value of a number\<close>

text \<open>
  For the bounds on the rounding of the arithmetic: \<open>valof\<close> is the real number
  \<open>(-1)\<^sup>s * m * 2\<^sup>e\<close> that the finite number \<open>Fin s m e\<close> stands for (and \<open>0\<close> for an infinity and
  for \<open>NaN\<close>, which \<open>is_finite\<close> tells apart), with \<open>pow2 e\<close> for \<open>2\<^sup>e\<close>. A number is
  \<open>in_range\<close> when it is a zero, or a normal number of magnitude at least \<open>2\<^sup>-\<^sup>5\<^sup>0\<^sup>0\<close> and
  below \<open>2\<^sup>5\<^sup>0\<^sup>0\<close>: the squares and the products of such numbers, and the sums of up to
  \<open>2\<^sup>2\<^sup>0\<close> of them, neither overflow nor underflow.
\<close>

definition pow2 :: "int \<Rightarrow> real" where
  "pow2 e = 2 powr real_of_int e"

definition valof :: "double \<Rightarrow> real" where
  "valof d = (case d of Fin s m e \<Rightarrow> (if s then - 1 else 1) * (real m * pow2 e) | _ \<Rightarrow> 0)"

definition is_finite :: "double \<Rightarrow> bool" where
  "is_finite d = (case d of Fin s m e \<Rightarrow> True | _ \<Rightarrow> False)"

definition in_range :: "double \<Rightarrow> bool" where
  "in_range d =
     (case d of
        Fin s m e \<Rightarrow> m = 0 \<or> (2 ^ 52 \<le> m \<and> m < 2 ^ 53 \<and> - 552 \<le> e \<and> e \<le> 447)
      | _ \<Rightarrow> False)"

text \<open>
  For the proofs: the largest relative error of one rounding, the sign of a number as a
  factor, and the exact sum of the squares of the components of a vector.
\<close>

definition rnd :: real where
  "rnd = 1 / 2 ^ 53"

definition sg :: "bool \<Rightarrow> real" where
  "sg s = (if s then - 1 else 1)"

definition norm2 :: "double list \<Rightarrow> real" where
  "norm2 a = (\<Sum>x\<leftarrow>a. valof x * valof x)"

section \<open>Chunker\<close>

text \<open>
  \<^verbatim>\<open>
  function chunkText(text, chunkSize = 1500, overlap = 300) {
    const chunks = [];
    for (let i = 0; i < text.length; i += chunkSize - overlap) {
      chunks.push(text.slice(i, i + chunkSize));
    }
    return chunks;
  }
  \<close>
  The loop has no guard on its stride. Every iteration pushes one chunk, and an array has
  a largest length: \<open>push\<close> on an array of \<open>2\<^sup>3\<^sup>2 - 1\<close> elements throws a RangeError
  (\<open>Invalid array length\<close>). So a loop whose index never passes the length of the text ends
  with this error once the array is full; an engine that stops at a lower limit of its own
  ends the call the same way, and earlier. \<open>limit\<close> is the largest length of the array, and
  \<open>None\<close> stands for the call that ends with the RangeError thrown by \<open>push\<close>. The recursion
  terminates because every iteration that does not end the loop leaves less room in the array.
\<close>

function chunk_loop ::
  "nat \<Rightarrow> 'a list \<Rightarrow> int \<Rightarrow> int \<Rightarrow> int \<Rightarrow> 'a list list \<Rightarrow> 'a list list option" where
  "chunk_loop limit text chunkSize overlap i chunks =
     (if i < int (length text)
      then (if limit \<le> length chunks then None
            else chunk_loop limit text chunkSize overlap (i + (chunkSize - overlap))
                   (chunks @ [js_slice text i (i + chunkSize)]))
      else Some chunks)"
  by pat_completeness auto
termination
  by (relation "measure (\<lambda>(limit, text, chunkSize, overlap, i, chunks). limit - length chunks)") auto

declare chunk_loop.simps [simp del]

text \<open>
  The largest length of an array of the language. A string of an engine is shorter than
  that, so a loop that advances returns before the array is full. The texts of the model
  are lists of any length; for a list longer than \<open>2\<^sup>3\<^sup>2 - 1\<close>, which is no string of an engine,
  the model takes the length of the list as the limit. The earlier version of the server has
  the same function with the defaults \<open>500\<close> and \<open>100\<close>.
\<close>

definition array_limit :: nat where
  "array_limit = 2 ^ 32 - 1"

definition chunkText :: "'a list \<Rightarrow> int \<Rightarrow> int \<Rightarrow> 'a list list option" where
  "chunkText text chunkSize overlap =
     chunk_loop (max array_limit (length text)) text chunkSize overlap 0 []"
section \<open>Chunk store\<close>

text \<open>
  A stored chunk: \<open>{ id, text, embedding }\<close>. The store is the process-wide array
  \<open>CHUNKS\<close> together with its snapshot in the file \<open>chunks.json\<close> (\<open>None\<close>: the file
  does not exist).
\<close>

record chunk =
  cid :: jsstring
  ctext :: jsstring
  embedding :: "double list"

record store =
  CHUNKS :: "chunk list"
  DATA_FILE :: "chunk list option"

text \<open>\<^verbatim>\<open>function saveChunks() { fs.writeFileSync(DATA_FILE, JSON.stringify(CHUNKS, null, 2)); }\<close>\<close>

definition saveChunks :: "store \<Rightarrow> store" where
  "saveChunks s = s\<lparr>DATA_FILE := Some (CHUNKS s)\<rparr>"

section \<open>Embedding client\<close>

text \<open>
  The embedding provider (\<open>openai.embeddings.create\<close>) is outside the program:
  \<open>create k t\<close> is the outcome of the request for the text \<open>t\<close> that stands at position
  \<open>k\<close> of the texts of one call, a vector or an error.
\<close>

type_synonym provider = "nat \<Rightarrow> jsstring \<Rightarrow> js_error + double list"

text \<open>
  \<^verbatim>\<open>
  async function embedTextsBatch(texts, batchSize = 50) {
    const embeddings = [];
    for (let i = 0; i < texts.length; i += batchSize) {
      const batch = texts.slice(i, i + batchSize);
      const res = await Promise.all(batch.map((text) => openai.embeddings.create(...)));
      embeddings.push(...res.map((r) => r.data[0].embedding));
      await new Promise((r) => setTimeout(r, 50));
    }
    return embeddings;
  }
  \<close>
  A rejected \<open>Promise.all\<close> is thrown by \<open>await\<close> and leaves the function. The loop does
  not end for a batch size that is not positive, so it is a partial function.
\<close>

partial_function (option) embed_loop ::
  "provider \<Rightarrow> jsstring list \<Rightarrow> int \<Rightarrow> int \<Rightarrow> double list list
     \<Rightarrow> (js_error + double list list) option" where
  "embed_loop create texts batchSize i embeddings =
     (if i < int (length texts)
      then (let batch = js_slice texts i (i + batchSize)
            in case promise_all (map (\<lambda>(k, t). create k t) (enumerate (nat i) batch)) of
                 Inl e \<Rightarrow> Some (Inl e)
               | Inr res \<Rightarrow> embed_loop create texts batchSize (i + batchSize) (embeddings @ res))
      else Some (Inr embeddings))"

definition embedTextsBatch ::
  "provider \<Rightarrow> jsstring list \<Rightarrow> int \<Rightarrow> (js_error + double list list) option" where
  "embedTextsBatch create texts batchSize = embed_loop create texts batchSize 0 []"

text \<open>
  The earlier version of the server sends the requests one after the other:
  \<^verbatim>\<open>
  async function embedTexts(texts) {
    const embeddings = [];
    for (const text of texts) {
      const res = await openai.embeddings.create(...);
      embeddings.push(res.data[0].embedding);
    }
    return embeddings;
  }
  \<close>
\<close>

fun embedTexts_loop ::
  "provider \<Rightarrow> (nat \<times> jsstring) list \<Rightarrow> double list list \<Rightarrow> js_error + double list list" where
  "embedTexts_loop create [] embeddings = Inr embeddings"
| "embedTexts_loop create ((k, t) # rest) embeddings =
     (case create k t of
        Inl e \<Rightarrow> Inl e
      | Inr v \<Rightarrow> embedTexts_loop create rest (embeddings @ [v]))"

definition embedTexts :: "provider \<Rightarrow> jsstring list \<Rightarrow> js_error + double list list" where
  "embedTexts create texts = embedTexts_loop create (enumerate 0 texts) []"

section \<open>Ingestion\<close>

text \<open>
  \<^verbatim>\<open>
  async function processText(text, source = "file") {
    const chunks = chunkText(text);
    const embeddings = await embedTextsBatch(chunks, 50);
    const processed = chunks.map((chunk, i) => ({
      id: `${source}_${Date.now()}_${i}`,
      text: chunk,
      embedding: embeddings[i],
    }));
    CHUNKS.push(...processed);
    saveChunks();
    return processed.length;
  }
  \<close>
  \<open>now i\<close> is the clock reading taken for the \<open>i\<close>-th record. The result is the value
  returned or the error thrown, with the store after the call; \<open>None\<close> is a call that does
  not return. A RangeError of \<open>chunkText\<close> is thrown on to the caller, with the store as it
  was. \<open>embeddings\<close> is as long as \<open>chunks\<close> (lemmas \<open>embedTextsBatch_50\<close> and
  \<open>promise_all_Inr\<close>), so \<open>embeddings[i]\<close> is always an element. The snapshot is modelled
  as the array written; the limit on the number of arguments of the spread call
  \<open>push(...processed)\<close> and a failure of the write are not modelled.
\<close>

definition make_chunks ::
  "(nat \<Rightarrow> nat) \<Rightarrow> jsstring \<Rightarrow> jsstring list \<Rightarrow> double list list \<Rightarrow> chunk list" where
  "make_chunks now source chunks embeddings =
     map (\<lambda>(i, c). \<lparr>cid = source @ js ''_'' @ dec (now i) @ js ''_'' @ dec i,
                     ctext = c, embedding = embeddings ! i\<rparr>)
       (enumerate 0 chunks)"

definition processText ::
  "provider \<Rightarrow> (nat \<Rightarrow> nat) \<Rightarrow> jsstring \<Rightarrow> jsstring \<Rightarrow> store
     \<Rightarrow> ((js_error + nat) \<times> store) option" where
  "processText create now text source s =
     (case chunkText text 1500 300 of
        None \<Rightarrow> Some (Inl (JsError ''Invalid array length''), s)
      | Some chunks \<Rightarrow>
          (case embedTextsBatch create chunks 50 of
             None \<Rightarrow> None
           | Some (Inl e) \<Rightarrow> Some (Inl e, s)
           | Some (Inr embeddings) \<Rightarrow>
               (let processed = make_chunks now source chunks embeddings;
                    s' = saveChunks (s\<lparr>CHUNKS := CHUNKS s @ processed\<rparr>)
                in Some (Inr (length processed), s'))))"

text \<open>
  The earlier version of the server: the same function over \<open>chunkText\<close> with the defaults
  \<open>500\<close> and \<open>100\<close> and over \<open>embedTexts\<close>.
\<close>

definition processText_seq ::
  "provider \<Rightarrow> (nat \<Rightarrow> nat) \<Rightarrow> jsstring \<Rightarrow> jsstring \<Rightarrow> store
     \<Rightarrow> ((js_error + nat) \<times> store) option" where
  "processText_seq create now text source s =
     (case chunkText text 500 100 of
        None \<Rightarrow> Some (Inl (JsError ''Invalid array length''), s)
      | Some chunks \<Rightarrow>
          (case embedTexts create chunks of
             Inl e \<Rightarrow> Some (Inl e, s)
           | Inr embeddings \<Rightarrow>
               (let processed = make_chunks now source chunks embeddings;
                    s' = saveChunks (s\<lparr>CHUNKS := CHUNKS s @ processed\<rparr>)
                in Some (Inr (length processed), s'))))"

section \<open>File upload\<close>

text \<open>
  The handler of \<open>POST /upload-file\<close>. The parsers of the file formats, the case mappings
  of strings, the file system and the two providers are outside the program and are taken
  from an environment; \<open>chat_completions_create env content\<close> is the outcome of the
  completion request whose user message is \<open>content\<close>. A reply is the status and the body
  sent.
\<close>

datatype response =
    ErrorReply nat string
  | FileIndexed nat jsstring
  | Answered jsstring "jsstring list"

datatype file_kind = Pdf | Spreadsheet | Docx | PlainText

record upload =
  originalname :: jsstring
  path :: jsstring

record env =
  embeddings_create :: provider
  date_now :: "nat \<Rightarrow> nat"
  extract_text :: "file_kind \<Rightarrow> jsstring \<Rightarrow> js_error + jsstring"
  toLowerCase :: "jsstring \<Rightarrow> jsstring"
  toUpperCase :: "jsstring \<Rightarrow> jsstring"
  unlinkSync :: "jsstring \<Rightarrow> js_error option"
  chat_completions_create :: "jsstring \<Rightarrow> js_error + jsstring"

text \<open>\<open>name.split(".").pop()\<close>: what follows the last dot, the whole name without one.\<close>

definition last_segment :: "jsstring \<Rightarrow> jsstring" where
  "last_segment name = rev (takeWhile (\<lambda>c. c \<noteq> 0x2E) (rev name))"

definition file_kind_of :: "jsstring \<Rightarrow> file_kind option" where
  "file_kind_of ext =
     (if ext = js ''pdf'' then Some Pdf
      else if ext = js ''xlsx'' \<or> ext = js ''xls'' \<or> ext = js ''csv'' then Some Spreadsheet
      else if ext = js ''docx'' then Some Docx
      else if ext = js ''txt'' \<or> ext = js ''log'' \<or> ext = js ''report'' then Some PlainText
      else None)"

text \<open>\<open>err.message || fallback\<close>\<close>

fun message_or :: "js_error \<Rightarrow> string \<Rightarrow> string" where
  "message_or (JsError m) fallback = (if m = [] then fallback else m)"

text \<open>
  \<^verbatim>\<open>
  app.post("/upload-file", upload.single("file"), async (req, res) => {
    try {
      if (!req.file) return res.status(400).json({ error: "No file uploaded" });
      const filePath = req.file.path;
      const ext = req.file.originalname.split(".").pop().toLowerCase();
      let text = "";
      if (ext === "pdf") { ... } else if ... else {
        return res.status(400).json({ error: "Unsupported file type" });
      }
      if (!text.trim()) return res.status(400).json({ error: "No text extracted" });
      const chunksCount = await processText(text, ext.toUpperCase());
      fs.unlinkSync(filePath);
      res.json({ message: "File indexed", chunks: chunksCount, type: ext });
    } catch (err) {
      res.status(500).json({ error: err.message || "File processing error" });
    }
  });
  \<close>
\<close>

definition upload_file :: "env \<Rightarrow> upload option \<Rightarrow> store \<Rightarrow> (response \<times> store) option" where
  "upload_file env file s =
     (case file of
        None \<Rightarrow> Some (ErrorReply 400 ''No file uploaded'', s)
      | Some f \<Rightarrow>
          (let ext = toLowerCase env (last_segment (originalname f))
           in case file_kind_of ext of
                None \<Rightarrow> Some (ErrorReply 400 ''Unsupported file type'', s)
              | Some kind \<Rightarrow>
                  (case extract_text env kind (path f) of
                     Inl err \<Rightarrow> Some (ErrorReply 500 (message_or err ''File processing error''), s)
                   | Inr text \<Rightarrow>
                       if js_trim text = [] then Some (ErrorReply 400 ''No text extracted'', s)
                       else
                         (case processText (embeddings_create env) (date_now env) text (toUpperCase env ext) s of
                            None \<Rightarrow> None
                          | Some (Inl err, s') \<Rightarrow>
                              Some (ErrorReply 500 (message_or err ''File processing error''), s')
                          | Some (Inr chunksCount, s') \<Rightarrow>
                              (case unlinkSync env (path f) of
                                 Some err \<Rightarrow>
                                   Some (ErrorReply 500
                                           (message_or err ''File processing error''), s')
                               | None \<Rightarrow> Some (FileIndexed chunksCount ext, s'))))))"

section \<open>Retrieval\<close>

text \<open>
  \<^verbatim>\<open>
  const ranked = CHUNKS.map((c) => ({ ...c, score: cosineSimilarity(qEmbed, c.embedding) }))
    .sort((a, b) => b.score - a.score)
    .slice(0, 5);
  \<close>
\<close>

record scored = chunk +
  score :: double

definition with_score :: "double list \<Rightarrow> chunk \<Rightarrow> scored" where
  "with_score qEmbed c =
     \<lparr>cid = cid c, ctext = ctext c, embedding = embedding c,
      score = cosineSimilarity qEmbed (embedding c)\<rparr>"

definition compare_scores :: "scored \<Rightarrow> scored \<Rightarrow> double" where
  "compare_scores a b = dsub (score b) (score a)"

text \<open>
  \<open>Array.prototype.sort(comparefn)\<close>: \<open>a\<close> is placed after \<open>b\<close> when \<open>comparefn(a, b) > 0\<close>,
  and a result that is \<open>NaN\<close> counts as \<open>0\<close>. The sort is stable. \<open>compare_sign\<close> is the
  sign that the sort sees. When the comparison is consistent on the elements of the array
  (the conditions of the language: the ties are an equivalence, and before and after are
  transitive), the result is determined: it is the one of every stable sort, and of the
  insertion sort below. Otherwise the language leaves the order to the engine, which
  returns the elements in an order of its own: \<open>engine_order\<close> is this order, of which
  the model knows only that it is a rearrangement of the array.
\<close>

fun insort_js :: "('a \<Rightarrow> 'a \<Rightarrow> double) \<Rightarrow> 'a \<Rightarrow> 'a list \<Rightarrow> 'a list" where
  "insort_js comparefn a [] = [a]"
| "insort_js comparefn a (b # bs) =
     (if dless zero (comparefn a b) then b # insort_js comparefn a bs else a # b # bs)"

definition compare_sign :: "('a \<Rightarrow> 'a \<Rightarrow> double) \<Rightarrow> 'a \<Rightarrow> 'a \<Rightarrow> int" where
  "compare_sign comparefn a b =
     (if dless zero (comparefn a b) then 1 else if dless (comparefn a b) zero then - 1 else 0)"

definition consistent :: "('a \<Rightarrow> 'a \<Rightarrow> double) \<Rightarrow> 'a list \<Rightarrow> bool" where
  "consistent comparefn xs \<longleftrightarrow>
     (\<forall>a\<in>set xs. \<forall>b\<in>set xs. \<forall>c\<in>set xs.
        compare_sign comparefn a a = 0
        \<and> (compare_sign comparefn a b = 0 \<longrightarrow> compare_sign comparefn b a = 0)
        \<and> (compare_sign comparefn a b = 0 \<and> compare_sign comparefn b c = 0
             \<longrightarrow> compare_sign comparefn a c = 0)
        \<and> (compare_sign comparefn a b < 0 \<and> compare_sign comparefn b c < 0
             \<longrightarrow> compare_sign comparefn a c < 0)
        \<and> (0 < compare_sign comparefn a b \<and> 0 < compare_sign comparefn b c
             \<longrightarrow> 0 < compare_sign comparefn a c))"

definition engine_order :: "('a \<Rightarrow> 'a \<Rightarrow> double) \<Rightarrow> 'a list \<Rightarrow> 'a list" where
  "engine_order = (SOME sort. \<forall>comparefn xs. mset (sort comparefn xs) = mset xs)"

definition js_sort :: "('a \<Rightarrow> 'a \<Rightarrow> double) \<Rightarrow> 'a list \<Rightarrow> 'a list" where
  "js_sort comparefn xs =
     (if consistent comparefn xs then foldr (insort_js comparefn) xs []
      else engine_order comparefn xs)"

text \<open>
  The ranking, with the number of results as a parameter; the source has the literal
  \<open>5\<close>, and the handler below calls \<open>ranked 5\<close>.
\<close>

definition ranked :: "nat \<Rightarrow> double list \<Rightarrow> chunk list \<Rightarrow> scored list" where
  "ranked k qEmbed chunks =
     js_slice (js_sort compare_scores (map (with_score qEmbed) chunks)) 0 (int k)"

text \<open>
  What the specification asks of a ranking \<open>ys\<close> of the scored chunks \<open>xs\<close> (in scan order)
  with bound \<open>k\<close>: it has \<open>min k (length xs)\<close> entries, all taken from \<open>xs\<close>; the scores
  descend; no chunk left out scores higher than a chunk returned; and among chunks of
  equal score the first seen win and keep their scan order.
\<close>

definition tie :: "scored \<Rightarrow> scored \<Rightarrow> bool" where
  "tie x y \<longleftrightarrow> dle (score x) (score y) \<and> dle (score y) (score x)"

definition rank_spec :: "nat \<Rightarrow> scored list \<Rightarrow> scored list \<Rightarrow> bool" where
  "rank_spec k xs ys \<longleftrightarrow>
     length ys = min k (length xs)
     \<and> mset ys \<subseteq># mset xs
     \<and> sorted_wrt (\<lambda>a b. dle (score b) (score a)) ys
     \<and> (\<forall>x\<in>#(mset xs - mset ys). \<forall>y\<in>set ys. dle (score x) (score y))
     \<and> (\<forall>y\<in>set ys. prefix (filter (\<lambda>x. tie x y) ys) (filter (\<lambda>x. tie x y) xs))"

text \<open>
  For the proofs: a score that is a number of the format, and the key of the descending
  order of scores.
\<close>

definition good :: "scored \<Rightarrow> bool" where
  "good x \<longleftrightarrow> \<not> is_NaN (score x) \<and> exp_ok (score x)"

definition desc_key :: "scored \<Rightarrow> int \<times> int" where
  "desc_key x = (- fst (order_key (score x)), - snd (order_key (score x)))"

section \<open>Question answering\<close>

text \<open>
  \<^verbatim>\<open>
  app.post("/ask", async (req, res) => {
    try {
      const { question } = req.body;
      if (!question) return res.status(400).json({ error: "No question provided" });
      if (CHUNKS.length === 0) return res.status(400).json({ error: "No data indexed" });
      const qEmbed = (await openai.embeddings.create({ ..., input: question })).data[0].embedding;
      const ranked = ...;
      const context = ranked.map((c) => c.text).join("\n\n");
      const answer = await openai.chat.completions.create({ ...,
          { role: "user", content:
              `Answer the question using this context:\n\n${context}\n\nQ: ${question}` } });
      res.json({ answer: answer.choices[0].message.content, sources: ranked.map((r) => r.id) });
    } catch (err) {
      res.status(500).json({ error: err.message || "QA error" });
    }
  });
  \<close>
\<close>

definition ask_prompt :: "jsstring \<Rightarrow> jsstring \<Rightarrow> jsstring" where
  "ask_prompt context question =
     js ''Answer the question using this context:'' @ [0x0A, 0x0A] @ context
     @ [0x0A, 0x0A] @ js ''Q: '' @ question"

definition ask :: "env \<Rightarrow> jsstring \<Rightarrow> store \<Rightarrow> response" where
  "ask env question s =
     (if question = [] then ErrorReply 400 ''No question provided''
      else if length (CHUNKS s) = 0 then ErrorReply 400 ''No data indexed''
      else
        (case embeddings_create env 0 question of
           Inl err \<Rightarrow> ErrorReply 500 (message_or err ''QA error'')
         | Inr qEmbed \<Rightarrow>
             (let ranked = ranked 5 qEmbed (CHUNKS s);
                  context = js_join [0x0A, 0x0A] (map ctext ranked)
              in case chat_completions_create env (ask_prompt context question) of
                   Inl err \<Rightarrow> ErrorReply 500 (message_or err ''QA error'')
                 | Inr answer \<Rightarrow> Answered answer (map cid ranked))))"

section \<open>Crawler\<close>

text \<open>
  The network and the HTML parser are outside the program. \<open>axios_get w url\<close> is the
  outcome of fetching and parsing the page at \<open>url\<close>: an error, or what the selectors of
  the crawler read from the document (the text of \<open>title\<close>, the texts of the headings
  \<open>h1, h2, h3\<close>, the text of \<open>body\<close> and the \<open>href\<close> attributes of the anchors, in document
  order). \<open>url_resolve w\<close> is \<open>url.resolve\<close> of the platform.
\<close>

record document =
  title :: jsstring
  heading_texts :: "jsstring list"
  body_text :: jsstring
  hrefs :: "jsstring list"

record web =
  axios_get :: "jsstring \<Rightarrow> js_error + document"
  url_resolve :: "jsstring \<Rightarrow> jsstring \<Rightarrow> jsstring"

record page =
  url :: jsstring
  page_text :: jsstring

text \<open>\<open>s.replace(/\s+/g, " ")\<close>: every maximal run of space characters becomes one space.\<close>

function collapse_spaces :: "jsstring \<Rightarrow> jsstring" where
  "collapse_spaces [] = []"
| "collapse_spaces (c # cs) =
     (if is_js_space c then 0x20 # collapse_spaces (dropWhile is_js_space cs)
      else c # collapse_spaces cs)"
  by pat_completeness auto
termination
  by (relation "measure length") (auto simp: length_dropWhile_le less_Suc_eq_le)

text \<open>
  \<^verbatim>\<open>
  const title = $("title").text();
  const headings = $("h1, h2, h3").map((i, el) => $(el).text()).get().join("\n");
  const bodyText = $("body").text().replace(/\s+/g, " ").trim();
  const text = [title, headings, bodyText].filter(Boolean).join("\n\n");
  \<close>
\<close>

definition extract_page_text :: "document \<Rightarrow> jsstring" where
  "extract_page_text d =
     js_join [0x0A, 0x0A]
       (filter (\<lambda>s. s \<noteq> [])
          [title d, js_join [0x0A] (heading_texts d), js_trim (collapse_spaces (body_text d))])"

text \<open>
  The state of one call of \<open>crawlWebsite\<close>: the set \<open>visited\<close>, the array \<open>pages\<close>, and the
  calls of \<open>crawl\<close> that are suspended at \<open>await axios.get(url)\<close>, each with its \<open>url\<close>.
  \<open>fetched\<close> is not a variable of the program: it records the requests sent, in order.
\<close>

record crawl_state =
  visited :: "jsstring set"
  pages :: "page list"
  pending :: "jsstring list"
  fetched :: "jsstring list"

text \<open>
  \<^verbatim>\<open>
  async function crawl(url) {
    if (visited.has(url) || pages.length >= maxPages) return;
    visited.add(url);
    try {
      const { data } = await axios.get(url);
      ...
  \<close>
  A call of \<open>crawl\<close> runs to its first \<open>await\<close> at once: it returns, or it marks the URL,
  sends the request and is suspended.
\<close>

definition crawl_call :: "int \<Rightarrow> jsstring \<Rightarrow> crawl_state \<Rightarrow> crawl_state" where
  "crawl_call maxPages u st =
     (if u \<in> visited st \<or> maxPages \<le> int (length (pages st)) then st
      else st\<lparr>visited := insert u (visited st),
              pending := pending st @ [u],
              fetched := fetched st @ [u]\<rparr>)"

text \<open>
  \<^verbatim>\<open>
  $("a[href]").each((i, el) => {
    let link = $(el).attr("href");
    if (!link) return;
    const resolved = urlModule.resolve(baseUrl, link.split("#")[0]);
    if (resolved.startsWith(baseUrl)) crawl(resolved);
  });
  \<close>
  The call \<open>crawl(resolved)\<close> is not awaited.
\<close>

definition follow_link :: "web \<Rightarrow> jsstring \<Rightarrow> int \<Rightarrow> crawl_state \<Rightarrow> jsstring \<Rightarrow> crawl_state" where
  "follow_link w baseUrl maxPages st link =
     (if link = [] then st
      else
        (let resolved = url_resolve w baseUrl (takeWhile (\<lambda>c. c \<noteq> 0x23) link)
         in if prefix baseUrl resolved then crawl_call maxPages resolved st else st))"

text \<open>
  The rest of a call of \<open>crawl\<close>, run when the response to its request arrives: a failed
  request is logged and the call ends; otherwise the text of the page is extracted, a
  page without text is dropped, and the links are followed.
\<close>

definition crawl_resume :: "web \<Rightarrow> jsstring \<Rightarrow> int \<Rightarrow> jsstring \<Rightarrow> crawl_state \<Rightarrow> crawl_state" where
  "crawl_resume w baseUrl maxPages u st =
     (case axios_get w u of
        Inl err \<Rightarrow> st
      | Inr d \<Rightarrow>
          foldl (follow_link w baseUrl maxPages)
            (if extract_page_text d \<noteq> []
             then st\<lparr>pages := pages st @ [\<lparr>url = u, page_text = extract_page_text d\<rparr>]\<rparr>
             else st)
            (hrefs d))"

text \<open>
  The responses arrive in an order that the program does not control: \<open>crawl_step k\<close> is
  the arrival of the response to the \<open>k\<close>-th request in flight, and a schedule is the list
  of these choices.
\<close>

definition crawl_step :: "web \<Rightarrow> jsstring \<Rightarrow> int \<Rightarrow> crawl_state \<Rightarrow> nat \<Rightarrow> crawl_state" where
  "crawl_step w baseUrl maxPages st k =
     (if k < length (pending st)
      then crawl_resume w baseUrl maxPages (pending st ! k)
             (st\<lparr>pending := take k (pending st) @ drop (Suc k) (pending st)\<rparr>)
      else st)"

text \<open>
  \<^verbatim>\<open>
  async function crawlWebsite(baseUrl, visited = new Set(), maxPages = 100) {
    const pages = [];
    async function crawl(url) { ... }
    await crawl(baseUrl);
    return pages;
  }
  \<close>
  \<open>await crawl(baseUrl)\<close> waits for the first call only, which ends when the response for
  \<open>baseUrl\<close> has been handled and the calls for its links have been started.
  \<open>crawlWebsite\<close> is the state at this moment; its \<open>pages\<close> is the array returned, which
  the calls still suspended go on filling: \<open>crawl_later\<close> is the state after the responses
  of a schedule.
\<close>

definition crawlWebsite :: "web \<Rightarrow> jsstring \<Rightarrow> jsstring set \<Rightarrow> int \<Rightarrow> crawl_state" where
  "crawlWebsite w baseUrl visited0 maxPages =
     crawl_step w baseUrl maxPages
       (crawl_call maxPages baseUrl \<lparr>visited = visited0, pages = [], pending = [], fetched = []\<rparr>)
       0"

definition crawl_later :: "web \<Rightarrow> jsstring \<Rightarrow> jsstring set \<Rightarrow> int \<Rightarrow> nat list \<Rightarrow> crawl_state" where
  "crawl_later w baseUrl visited0 maxPages schedule =
     foldl (crawl_step w baseUrl maxPages) (crawlWebsite w baseUrl visited0 maxPages) schedule"

text \<open>
  The invariant of a crawl, for the proofs: no request is sent twice, the requests sent
  are the URLs added to \<open>visited\<close>, every one of them starts with \<open>baseUrl\<close>, and the pages
  recorded and the requests in flight belong to distinct requests sent.
\<close>

definition crawl_inv :: "jsstring \<Rightarrow> jsstring set \<Rightarrow> crawl_state \<Rightarrow> bool" where
  "crawl_inv baseUrl visited0 st \<longleftrightarrow>
     distinct (fetched st)
     \<and> visited st = visited0 \<union> set (fetched st)
     \<and> set (fetched st) \<inter> visited0 = {}
     \<and> (\<forall>u\<in>set (fetched st). prefix baseUrl u)
     \<and> distinct (map url (pages st) @ pending st)
     \<and> set (map url (pages st) @ pending st) \<subseteq> set (fetched st)"

section \<open>Example data\<close>

text \<open>
  Three chunks for the examples below: one whose embedding is the zero vector, one whose
  embedding is the unit vector \<open>[1, 0]\<close>, and one whose embedding is \<open>[0, 1]\<close>.
\<close>

definition zero_chunk :: chunk where
  "zero_chunk = \<lparr>cid = js ''doc_1_0'', ctext = js ''blank'', embedding = [zero, zero]\<rparr>"

definition unit_chunk :: chunk where
  "unit_chunk = \<lparr>cid = js ''doc_2_0'', ctext = js ''match'', embedding = [one, zero]\<rparr>"

definition other_chunk :: chunk where
  "other_chunk = \<lparr>cid = js ''doc_3_0'', ctext = js ''other'', embedding = [zero, one]\<rparr>"

text \<open>
  A small site. The page \<open>http://s/\<close> links to \<open>a\<close>, \<open>b\<close> and \<open>c\<close>; the page
  \<open>http://s/docs/\<close> links to \<open>a/\<close>, and the page \<open>http://s/docs/a/\<close> links to \<open>../x\<close>, which
  from this page is \<open>http://s/docs/x\<close>. \<open>example_resolve\<close> agrees with \<open>url.resolve\<close> on the
  arguments that the examples use: a plain name is appended to a base that ends with a
  slash, and \<open>..\<close> removes the last directory of the base.
\<close>

definition example_document :: "string \<Rightarrow> string list \<Rightarrow> document" where
  "example_document t links =
     \<lparr>title = js t, heading_texts = [], body_text = [], hrefs = map js links\<rparr>"

definition example_get :: "jsstring \<Rightarrow> js_error + document" where
  "example_get u =
     (if u = js ''http://s/'' then Inr (example_document ''S'' [''a'', ''b'', ''c''])
      else if u = js ''http://s/a'' then Inr (example_document ''A'' [])
      else if u = js ''http://s/b'' then Inr (example_document ''B'' [])
      else if u = js ''http://s/c'' then Inr (example_document ''C'' [])
      else if u = js ''http://s/docs/'' then Inr (example_document ''D'' [''a/''])
      else if u = js ''http://s/docs/a/'' then Inr (example_document ''E'' [''../x''])
      else if u = js ''http://s/docs/x'' then Inr (example_document ''X'' [])
      else Inl (JsError ''Request failed with status code 404''))"

definition example_resolve :: "jsstring \<Rightarrow> jsstring \<Rightarrow> jsstring" where
  "example_resolve base link =
     (if link = js ''../x'' \<and> base = js ''http://s/docs/'' then js ''http://s/x''
      else if link = js ''../x'' \<and> base = js ''http://s/docs/a/'' then js ''http://s/docs/x''
      else base @ link)"

definition example_web :: web where
  "example_web = \<lparr>axios_get = example_get, url_resolve = example_resolve\<rparr>"

section \<open>Properties of the chunker\<close>

lemma js_slice_window:
  assumes "0 \<le> i" "0 < c"
  shows "js_slice xs i (i + c) = take (nat c) (drop (nat i) xs)"
  using assms by (auto simp: js_slice_def Let_def min_def nat_diff_distrib nat_add_distrib)

lemma window_count_step:
  fixes d :: int
  assumes "0 < d" "0 < a"
  shows "nat ((a + d - 1) div d) = Suc (nat ((a - d + d - 1) div d))"
proof -
  have "(a + d - 1) div d = (a - d + d - 1) div d + 1"
    using assms(1) div_add_self2[of d "a - 1"] by (simp add: algebra_simps)
  moreover have "0 \<le> (a - d + d - 1) div d"
    using assms by (simp add: pos_imp_zdiv_nonneg_iff)
  ultimately show ?thesis by simp
qed

lemma window_count_done:
  fixes d :: int
  assumes "0 < d" "a \<le> 0"
  shows "nat ((a + d - 1) div d) = 0"
proof -
  have "a + d - 1 < d" using assms by simp
  then have "(a + d - 1) div d \<le> 0"
    using assms(1) by (metis div_pos_pos_trivial order.strict_implies_order order_refl not_le pos_imp_zdiv_neg_iff)
  then show ?thesis by simp
qed

lemma chunk_loop_closed:
  assumes "0 < chunkSize - overlap" "0 \<le> i"
    and "length chunks + nat ((int (length text) - i + (chunkSize - overlap) - 1) div (chunkSize - overlap)) \<le> limit"
  shows "chunk_loop limit text chunkSize overlap i chunks =
           Some (chunks @ map (\<lambda>k. js_slice text (i + int k * (chunkSize - overlap))
                                   (i + int k * (chunkSize - overlap) + chunkSize))
                    [0..<nat ((int (length text) - i + (chunkSize - overlap) - 1) div (chunkSize - overlap))])"
  using assms
proof (induction "nat (int (length text) - i)" arbitrary: i chunks rule: less_induct)
  case less
  define d where "d = chunkSize - overlap"
  have dpos: "0 < d" using less.prems by (simp add: d_def)
  show ?case
  proof (cases "i < int (length text)")
    case False
    then have "nat ((int (length text) - i + d - 1) div d) = 0"
      using dpos by (intro window_count_done) auto
    then show ?thesis using False
      by (subst chunk_loop.simps) (simp add: d_def)
  next
    case True
    let ?n = "nat ((int (length text) - i + d - 1) div d)"
    let ?n' = "nat ((int (length text) - (i + d) + d - 1) div d)"
    have n: "?n = Suc ?n'"
      using window_count_step[OF dpos, of "int (length text) - i"] True
      by (simp add: algebra_simps)
    have room: "length chunks + Suc ?n' \<le> limit"
      using less.prems(3) n by (simp add: d_def)
    have IH: "chunk_loop limit text chunkSize overlap (i + d) (chunks @ [js_slice text i (i + chunkSize)]) =
       Some ((chunks @ [js_slice text i (i + chunkSize)]) @
         map (\<lambda>k. js_slice text (i + d + int k * d) (i + d + int k * d + chunkSize)) [0..<?n'])"
      unfolding d_def
      by (rule less.hyps) (use True less.prems room in \<open>auto simp: d_def\<close>)
    have "map (\<lambda>k. js_slice text (i + int k * d) (i + int k * d + chunkSize)) [0..<Suc ?n'] =
          js_slice text i (i + chunkSize) #
          map (\<lambda>k. js_slice text (i + d + int k * d) (i + d + int k * d + chunkSize)) [0..<?n']"
      unfolding map_upt_Suc by (simp add: algebra_simps)
    then show ?thesis
      using True IH n room
      by (subst chunk_loop.simps) (simp add: d_def del: upt_Suc)
  qed
qed

lemma chunk_loop_full:
  assumes "chunkSize \<le> overlap" "i \<le> 0" "text \<noteq> []"
  shows "chunk_loop limit text chunkSize overlap i chunks = None"
  using assms
proof (induction "limit - length chunks" arbitrary: i chunks rule: less_induct)
  case less
  have i: "i < int (length text)" using less.prems by (cases "text") auto
  show ?case
  proof (cases "limit \<le> length chunks")
    case True
    then show ?thesis using i by (subst chunk_loop.simps) simp
  next
    case False
    have "chunk_loop limit text chunkSize overlap (i + (chunkSize - overlap))
            (chunks @ [js_slice text i (i + chunkSize)]) = None"
      by (rule less.hyps) (use False less.prems in auto)
    then show ?thesis using i False by (subst chunk_loop.simps) simp
  qed
qed

lemma chunkText_full:
  assumes "chunkSize \<le> overlap" "text \<noteq> []"
  shows "chunkText text chunkSize overlap = None"
  unfolding chunkText_def by (rule chunk_loop_full) (use assms in simp_all)

lemma ceil_div_less:
  assumes "0 < (d::nat)"
  shows "k < (len + d - 1) div d \<longleftrightarrow> k * d < len"
proof -
  have "k < (len + d - 1) div d \<longleftrightarrow> Suc k \<le> (len + d - 1) div d" by auto
  also have "\<dots> \<longleftrightarrow> Suc k * d \<le> len + d - 1"
    using assms by (simp only: less_eq_div_iff_mult_less_eq)
  also have "\<dots> \<longleftrightarrow> k * d < len" using assms by auto
  finally show ?thesis .
qed

lemma multiples_below:
  assumes "0 < (d::nat)"
  shows "filter (\<lambda>i. d dvd i) [0..<len] = map (\<lambda>k. k * d) [0..<(len + d - 1) div d]"
proof (rule sorted_distinct_set_unique)
  show "sorted (filter (\<lambda>i. d dvd i) [0..<len])" by (simp add: sorted_wrt_filter)
  show "distinct (filter (\<lambda>i. d dvd i) [0..<len])" by simp
  have inj: "inj_on (\<lambda>k. k * d) A" for A using assms by (simp add: inj_on_def)
  show "sorted (map (\<lambda>k. k * d) [0..<(len + d - 1) div d])"
    by (simp add: sorted_map sorted_wrt_iff_nth_less)
  show "distinct (map (\<lambda>k. k * d) [0..<(len + d - 1) div d])"
    by (simp add: distinct_map inj)
  show "set (filter (\<lambda>i. d dvd i) [0..<len]) = set (map (\<lambda>k. k * d) [0..<(len + d - 1) div d])"
  proof (intro set_eqI iffI)
    fix i assume "i \<in> set (filter (\<lambda>i. d dvd i) [0..<len])"
    then obtain k where k: "i = k * d" "i < len" by (auto simp: dvd_def mult.commute)
    then have "k < (len + d - 1) div d" using ceil_div_less[OF assms, of k len] by simp
    then show "i \<in> set (map (\<lambda>k. k * d) [0..<(len + d - 1) div d])"
      using k(1) by (auto simp del: One_nat_def)
  next
    fix i assume "i \<in> set (map (\<lambda>k. k * d) [0..<(len + d - 1) div d])"
    then have "\<exists>k. i = k * d \<and> k < (len + d - 1) div d"
      unfolding set_map set_upt by (elim imageE) auto
    then obtain k where k: "i = k * d" "k < (len + d - 1) div d" by blast
    then have "i < len" using ceil_div_less[OF assms, of k len] by simp
    then show "i \<in> set (filter (\<lambda>i. d dvd i) [0..<len])" using k(1) by simp
  qed
qed

lemma chunkText_closed:
  assumes "overlap < chunkSize" "0 \<le> overlap"
  shows "chunkText text chunkSize overlap =
         Some (map (\<lambda>k. take (nat chunkSize) (drop (k * nat (chunkSize - overlap)) text))
                 [0..<(length text + nat (chunkSize - overlap) - 1) div nat (chunkSize - overlap)])"
proof -
  define d where "d = nat (chunkSize - overlap)"
  have d: "0 < d" "chunkSize - overlap = int d" using assms by (simp_all add: d_def)
  have "int (length text) - 0 + int d - 1 = int (length text + d - 1)"
    using d(1) by simp
  then have n: "nat ((int (length text) - 0 + int d - 1) div int d) = (length text + d - 1) div d"
    by (simp only: zdiv_int[symmetric] nat_int)
  have w: "js_slice text (0 + int k * int d) (0 + int k * int d + chunkSize)
           = take (nat chunkSize) (drop (k * d) text)" for k
    using js_slice_window[of "int k * int d" chunkSize "text"] assms
    by (simp add: nat_mult_distrib)
  have "(length text + d - 1) div d \<le> length text"
  proof (cases "length text = 0")
    case True
    then show ?thesis using d(1) by simp
  next
    case False
    have "length text + d - 1 < Suc (length text) * d"
      using False d(1) by (cases d) simp_all
    then have "(length text + d - 1) div d < Suc (length text)"
      using d(1) by (simp add: less_mult_imp_div_less)
    then show ?thesis by simp
  qed
  then have room: "length ([]::'a list list) + nat ((int (length text) - 0 + int d - 1) div int d)
                     \<le> max array_limit (length text)"
    by (simp only: n) simp
  show ?thesis
    unfolding chunkText_def d_def[symmetric]
    using chunk_loop_closed[of chunkSize overlap 0 "[]" "text" "max array_limit (length text)"] d room
    by (simp only: n w append_Nil)
qed

text \<open>
  Claim C1. For \<open>0 \<le> overlap < chunkSize\<close> the chunker returns, and its result is
  exactly the windows \<open>take chunkSize (drop i text)\<close> at the start offsets \<open>i\<close> that are
  the multiples of the stride \<open>chunkSize - overlap\<close> strictly below the length of the text.
  The offsets start at \<open>0\<close> and grow by the stride at each step, the last window ends at or
  after the end of the text, and every position of the text lies in some window, which
  holds the character of that position.
\<close>

theorem chunkText_windows:
  assumes "0 \<le> overlap" "overlap < chunkSize"
  shows "let d = nat (chunkSize - overlap);
             offs = filter (\<lambda>i. d dvd i) [0..<length text];
             chunks = map (\<lambda>i. take (nat chunkSize) (drop i text)) offs
         in chunkText text chunkSize overlap = Some chunks
            \<and> 0 < d \<and> (offs \<noteq> [] \<longrightarrow> hd offs = 0)
            \<and> (\<forall>k. Suc k < length offs \<longrightarrow> offs ! Suc k = offs ! k + d)
            \<and> (text \<noteq> [] \<longrightarrow> length text \<le> last offs + nat chunkSize)
            \<and> (\<forall>j<length text. \<exists>k<length offs.
                  offs ! k \<le> j \<and> j < offs ! k + length (chunks ! k)
                  \<and> chunks ! k ! (j - offs ! k) = text ! j)"
proof -
  define d where "d = nat (chunkSize - overlap)"
  define n where "n = (length text + d - 1) div d"
  define offs where "offs = filter (\<lambda>i. d dvd i) [0..<length text]"
  define chunks where "chunks = map (\<lambda>i. take (nat chunkSize) (drop i text)) offs"
  have d: "0 < d" "d \<le> nat chunkSize" using assms by (simp_all add: d_def)
  have offs: "offs = map (\<lambda>k. k * d) [0..<n]"
    unfolding offs_def n_def by (rule multiples_below[OF d(1)])
  have len: "length offs = n" by (simp add: offs)
  have nth: "offs ! k = k * d" if "k < n" for k using that by (simp add: offs)
  have c1: "chunkText text chunkSize overlap = Some chunks"
    using chunkText_closed[OF assms(2,1), of "text"]
    by (simp add: chunks_def offs d_def n_def comp_def)
  have c2: "offs \<noteq> [] \<longrightarrow> hd offs = 0"
    using nth[of 0] len by (cases offs) (auto simp: hd_conv_nth)
  have c3: "\<forall>k. Suc k < length offs \<longrightarrow> offs ! Suc k = offs ! k + d"
    using nth len by simp
  have nd: "length text \<le> n * d"
    using ceil_div_less[OF d(1), of n "length text"] by (simp add: n_def)
  have c4: "text \<noteq> [] \<longrightarrow> length text \<le> last offs + nat chunkSize"
  proof
    assume "text \<noteq> []"
    then have "0 < n" using ceil_div_less[OF d(1), of 0 "length text"] by (simp add: n_def)
    then have "offs \<noteq> []" using len by auto
    then have "last offs = offs ! (length offs - 1)" by (rule last_conv_nth)
    then have "last offs = (n - 1) * d"
      using nth[of "n - 1"] len \<open>0 < n\<close> by simp
    moreover have "n * d = (n - 1) * d + d" using \<open>0 < n\<close> by (cases n) simp_all
    ultimately show "length text \<le> last offs + nat chunkSize" using nd d(2) by linarith
  qed
  have c5: "\<forall>j<length text. \<exists>k<length offs.
              offs ! k \<le> j \<and> j < offs ! k + length (chunks ! k)
              \<and> chunks ! k ! (j - offs ! k) = text ! j"
  proof (intro allI impI)
    fix j assume j: "j < length text"
    define k where "k = j div d"
    have kj: "k * d \<le> j" "j < k * d + d"
      using d(1) div_mult_mod_eq[of j d] mod_less_divisor[of d j] unfolding k_def by linarith+
    have "k * d < length text" using kj(1) j by simp
    then have kn: "k < n" using ceil_div_less[OF d(1), of k "length text"] by (simp add: n_def)
    have ck: "chunks ! k = take (nat chunkSize) (drop (k * d) text)"
      using kn by (simp add: chunks_def offs)
    have "j - k * d < nat chunkSize" using kj d(2) by linarith
    then have "chunks ! k ! (j - k * d) = text ! j" "j < k * d + length (chunks ! k)"
      using kj j by (simp_all add: ck)
    then show "\<exists>k<length offs. offs ! k \<le> j \<and> j < offs ! k + length (chunks ! k)
                 \<and> chunks ! k ! (j - offs ! k) = text ! j"
      using kn kj(1) nth[OF kn] len by auto
  qed
  show ?thesis
    unfolding Let_def d_def[symmetric] offs_def[symmetric] chunks_def[symmetric]
    using c1 c2 c3 c4 c5 d(1) by blast
qed

theorem chunkText_windows_witness:
  "(0::int) \<le> 100 \<and> (100::int) < 500 \<and>
   chunkText (replicate 1200 CHR ''A'') 500 100 =
     Some [replicate 500 CHR ''A'', replicate 500 CHR ''A'', replicate 400 CHR ''A'']"
proof -
  have m: "filter (\<lambda>i. (400::nat) dvd i) [0..<1200] = [0, 400, 800]"
    by (simp add: multiples_below numeral_3_eq_3)
  show ?thesis
    using chunkText_windows[of 100 500 "replicate 1200 CHR ''A''"]
    by (simp add: Let_def m)
qed

lemma window_count_le:
  fixes d :: int
  assumes "0 < d"
  shows "nat ((int len - 0 + d - 1) div d) \<le> len"
proof -
  have "int len + d - 1 < (int len + 1) * d"
  proof -
    have "int len * 1 \<le> int len * d" using assms by (intro mult_left_mono) simp_all
    then show ?thesis by (simp add: algebra_simps)
  qed
  moreover have "(int len + d - 1) div d * d \<le> int len + d - 1"
    using div_mult_mod_eq[of "int len + d - 1" d] pos_mod_sign[OF assms, of "int len + d - 1"]
    by linarith
  ultimately have "(int len + d - 1) div d * d < (int len + 1) * d" by linarith
  then have "(int len + d - 1) div d < int len + 1"
    using assms by (simp only: mult_less_cancel_right_pos)
  then show ?thesis by simp
qed

lemma chunkText_returns_iff:
  "(\<exists>chunks. chunkText text chunkSize overlap = Some chunks) \<longleftrightarrow> (text = [] \<or> overlap < chunkSize)"
proof (cases "text = []")
  case True
  then show ?thesis by (simp add: chunkText_def chunk_loop.simps)
next
  case False
  show ?thesis
  proof (cases "overlap < chunkSize")
    case True
    have "length ([]::'a list list)
            + nat ((int (length text) - 0 + (chunkSize - overlap) - 1) div (chunkSize - overlap))
          \<le> max array_limit (length text)"
      using window_count_le[of "chunkSize - overlap" "length text"] True by simp
    then show ?thesis
      using chunk_loop_closed[of chunkSize overlap 0 "[]" "text" "max array_limit (length text)"] True
      by (simp add: chunkText_def)
  next
    case f: False
    then show ?thesis using chunkText_full[of chunkSize overlap "text"] False by simp
  qed
qed


section \<open>Properties of the embedding client and of ingestion\<close>

lemma promise_all_append:
  "promise_all (xs @ ys) =
     (case promise_all xs of
        Inl e \<Rightarrow> Inl e
      | Inr vs \<Rightarrow> (case promise_all ys of Inl e \<Rightarrow> Inl e | Inr ws \<Rightarrow> Inr (vs @ ws)))"
  by (induction xs rule: promise_all.induct) (auto split: sum.splits)

lemma promise_all_isl: "isl (promise_all rs) \<longleftrightarrow> (\<exists>r\<in>set rs. isl r)"
  by (induction rs rule: promise_all.induct) (auto split: sum.splits)

lemma promise_all_Inr: "promise_all rs = Inr vs \<Longrightarrow> length vs = length rs"
  by (induction rs arbitrary: vs rule: promise_all.induct) (auto split: sum.splits)

lemma enumerate_split:
  "enumerate n xs = enumerate n (take b xs) @ enumerate (n + min b (length xs)) (drop b xs)"
proof -
  have "enumerate n (take b xs @ drop b xs) =
        enumerate n (take b xs) @ enumerate (n + length (take b xs)) (drop b xs)"
    by (rule enumerate_append_eq)
  then show ?thesis by (simp add: min.commute)
qed

lemma embed_loop_closed:
  assumes "0 < batchSize" "0 \<le> i"
  shows "embed_loop create texts batchSize i embeddings =
           Some (case promise_all (map (\<lambda>(k, t). create k t)
                                     (enumerate (nat i) (drop (nat i) texts))) of
                   Inl e \<Rightarrow> Inl e
                 | Inr vs \<Rightarrow> Inr (embeddings @ vs))"
  using assms
proof (induction "nat (int (length texts) - i)" arbitrary: i embeddings rule: less_induct)
  case less
  show ?case
  proof (cases "i < int (length texts)")
    case False
    then show ?thesis by (subst embed_loop.simps) simp
  next
    case True
    let ?b = "nat batchSize"
    let ?rest = "drop (nat i) texts"
    have sl: "js_slice texts i (i + batchSize) = take ?b ?rest"
      using js_slice_window[of i batchSize texts] less.prems by simp
    have dr: "drop ?b ?rest = drop (nat (i + batchSize)) texts"
      using less.prems by (simp add: nat_add_distrib add.commute)
    have en: "enumerate (nat i + min ?b (length ?rest)) (drop ?b ?rest)
              = enumerate (nat (i + batchSize)) (drop (nat (i + batchSize)) texts)"
    proof (cases "?b \<le> length ?rest")
      case True
      then show ?thesis using less.prems dr by (simp add: nat_add_distrib min_def)
    next
      case False
      then have "drop ?b ?rest = []" by simp
      then show ?thesis using dr by (simp add: enumerate_eq_zip)
    qed
    have split: "enumerate (nat i) ?rest =
                 enumerate (nat i) (take ?b ?rest)
                 @ enumerate (nat (i + batchSize)) (drop (nat (i + batchSize)) texts)"
      using enumerate_split[of "nat i" ?rest ?b] en by simp
    have IH: "embed_loop create texts batchSize (i + batchSize) acc =
           Some (case promise_all (map (\<lambda>(k, t). create k t)
                    (enumerate (nat (i + batchSize)) (drop (nat (i + batchSize)) texts))) of
                   Inl e \<Rightarrow> Inl e
                 | Inr vs \<Rightarrow> Inr (acc @ vs))" for acc
      by (rule less.hyps) (use True less.prems in auto)
    show ?thesis
      using True
      by (subst embed_loop.simps)
         (simp add: sl split promise_all_append IH Let_def split: sum.splits)
  qed
qed

lemma embedTextsBatch_50:
  "embedTextsBatch create texts 50 =
     Some (promise_all (map (\<lambda>(k, t). create k t) (enumerate 0 texts)))"
  using embed_loop_closed[of 50 0 create texts "[]"]
  by (simp add: embedTextsBatch_def split: sum.splits)

lemma embedTexts_loop_closed:
  "embedTexts_loop create kts embeddings =
     (case promise_all (map (\<lambda>(k, t). create k t) kts) of
        Inl e \<Rightarrow> Inl e
      | Inr vs \<Rightarrow> Inr (embeddings @ vs))"
  by (induction create kts embeddings rule: embedTexts_loop.induct) (auto split: sum.splits)

lemma embedTexts_closed:
  "embedTexts create texts = promise_all (map (\<lambda>(k, t). create k t) (enumerate 0 texts))"
  by (simp add: embedTexts_def embedTexts_loop_closed split: sum.splits)

lemma requests_fail:
  assumes "k < length chunks" "isl (create k (chunks ! k))"
  shows "isl (promise_all (map (\<lambda>(k, t). create k t) (enumerate 0 chunks)))"
proof -
  have "(k, chunks ! k) \<in> set (enumerate 0 chunks)"
    using assms(1) by (simp add: in_set_enumerate_eq)
  then show ?thesis using assms(2) unfolding promise_all_isl by force
qed

text \<open>
  With the sizes that \<open>processText\<close> uses, the chunker and the embedding loop return:
  the ingestion always returns, with an error and the store it was given, or with the
  number of chunks and the store that holds the new chunks, in memory and in the snapshot.
\<close>

lemma chunkText_default_returns:
  "\<exists>chunks. chunkText text 1500 300 = Some chunks" "\<exists>chunks. chunkText text 500 100 = Some chunks"
  by (simp_all add: chunkText_closed)

lemma processText_result:
  assumes "chunkText text 1500 300 = Some chunks"
  shows "processText create now text source s =
           Some (case promise_all (map (\<lambda>(k, t). create k t) (enumerate 0 chunks)) of
                   Inl e \<Rightarrow> (Inl e, s)
                 | Inr embeddings \<Rightarrow>
                     (Inr (length chunks),
                      \<lparr>CHUNKS = CHUNKS s @ make_chunks now source chunks embeddings,
                       DATA_FILE = Some (CHUNKS s @ make_chunks now source chunks embeddings)\<rparr>))"
  by (simp add: processText_def assms embedTextsBatch_50 saveChunks_def Let_def make_chunks_def
      split: sum.splits)

lemma processText_returns: "\<exists>r. processText create now text source s = Some r"
  using chunkText_default_returns(1)[of "text"] processText_result by blast

text \<open>
  Claim C3. When a request of the embedding step fails, for some chunk of the text in some
  sub-batch, the ingestion fails as a whole with an error and returns the store it was
  given: \<open>CHUNKS\<close> and the snapshot in \<open>DATA_FILE\<close> are those of before the call. This holds
  for the batched client and for the sequential client of the earlier version.
\<close>

theorem ingest_embed_failure:
  "(chunkText text 1500 300 = Some chunks \<and> k < length chunks \<and> isl (create k (chunks ! k))
      \<longrightarrow> (\<exists>e. processText create now text source s = Some (Inl e, s)))
   \<and> (chunkText text 500 100 = Some chunks' \<and> k' < length chunks' \<and> isl (create k' (chunks' ! k'))
      \<longrightarrow> (\<exists>e. processText_seq create now text source s = Some (Inl e, s)))"
proof (intro conjI impI; elim conjE)
  assume a: "chunkText text 1500 300 = Some chunks" "k < length chunks"
            "isl (create k (chunks ! k))"
  from requests_fail[of k chunks create, OF a(2,3)] obtain e where
    "promise_all (map (\<lambda>(k, t). create k t) (enumerate 0 chunks)) = Inl e"
    by (auto simp: isl_def)
  then show "\<exists>e. processText create now text source s = Some (Inl e, s)"
    by (simp add: processText_def a(1) embedTextsBatch_50)
next
  assume a: "chunkText text 500 100 = Some chunks'" "k' < length chunks'"
            "isl (create k' (chunks' ! k'))"
  from requests_fail[of k' chunks' create, OF a(2,3)] obtain e where
    "promise_all (map (\<lambda>(k, t). create k t) (enumerate 0 chunks')) = Inl e"
    by (auto simp: isl_def)
  then show "\<exists>e. processText_seq create now text source s = Some (Inl e, s)"
    by (simp add: processText_seq_def a(1) embedTexts_closed)
qed

theorem ingest_embed_failure_witness:
  "chunkText (replicate 2000 (0x41::16 word)) 1500 300 = Some [replicate 1500 0x41, replicate 800 0x41]
   \<and> chunkText (replicate 2000 (0x41::16 word)) 500 100 =
       Some [replicate 500 0x41, replicate 500 0x41, replicate 500 0x41, replicate 500 0x41,
             replicate 400 0x41]
   \<and> (\<exists>e. processText (\<lambda>k t. if k = 1 then Inl (JsError ''429'') else Inr [])
              (\<lambda>i. 0) (replicate 2000 0x41) (js ''TXT'') \<lparr>CHUNKS = [], DATA_FILE = None\<rparr>
            = Some (Inl e, \<lparr>CHUNKS = [], DATA_FILE = None\<rparr>))
   \<and> (\<exists>e. processText_seq (\<lambda>k t. if k = 1 then Inl (JsError ''429'') else Inr [])
              (\<lambda>i. 0) (replicate 2000 0x41) (js ''TXT'') \<lparr>CHUNKS = [], DATA_FILE = None\<rparr>
            = Some (Inl e, \<lparr>CHUNKS = [], DATA_FILE = None\<rparr>))"
proof -
  have c1: "chunkText (replicate 2000 (0x41::16 word)) 1500 300
            = Some [replicate 1500 0x41, replicate 800 0x41]"
    by (simp add: chunkText_closed numeral_2_eq_2)
  have u5: "[0..<5] = [0, 1, 2, 3, 4::nat]" by code_simp
  have c2: "chunkText (replicate 2000 (0x41::16 word)) 500 100 =
       Some [replicate 500 0x41, replicate 500 0x41, replicate 500 0x41, replicate 500 0x41,
             replicate 400 0x41]"
    by (simp add: chunkText_closed u5)
  show ?thesis
    using ingest_embed_failure[of "replicate 2000 0x41" "[replicate 1500 0x41, replicate 800 0x41]"
        1 "\<lambda>k t. if k = 1 then Inl (JsError ''429'') else Inr []" "\<lambda>i. 0" "js ''TXT''"
        "\<lparr>CHUNKS = [], DATA_FILE = None\<rparr>"
        "[replicate 500 0x41, replicate 500 0x41, replicate 500 0x41, replicate 500 0x41,
             replicate 400 0x41]" 1]
      c1 c2
    by simp
qed

lemma processText_empty:
  "processText create now [] source s = Some (Inr 0, s\<lparr>DATA_FILE := Some (CHUNKS s)\<rparr>)"
  by (simp add: processText_def chunkText_def chunk_loop.simps embedTextsBatch_50
      make_chunks_def enumerate_eq_zip saveChunks_def)

text \<open>
  Claim C8, as the code has it. The check for a text that is empty after trimming is in the
  handler of \<open>/upload-file\<close>, before \<open>processText\<close> is called: the handler replies with
  status 400, no chunk is created and the store is the one before the request.
  \<open>processText\<close> itself checks nothing: on the empty text it creates no chunk, returns
  \<open>0\<close> without an error and rewrites the snapshot from the unchanged \<open>CHUNKS\<close>.
\<close>

theorem upload_file_rejects_blank:
  assumes "file_kind_of (toLowerCase env (last_segment (originalname f))) = Some kind"
    and "extract_text env kind (path f) = Inr text"
    and "js_trim text = []"
  shows "upload_file env (Some f) s = Some (ErrorReply 400 ''No text extracted'', s)
         \<and> processText create now [] source s = Some (Inr 0, s\<lparr>DATA_FILE := Some (CHUNKS s)\<rparr>)"
  using assms by (simp add: upload_file_def Let_def processText_empty)

theorem upload_file_rejects_blank_witness:
  "upload_file
     \<lparr>embeddings_create = (\<lambda>k t. Inr []), date_now = (\<lambda>i. 0),
      extract_text = (\<lambda>kind p. Inr (js ''  '')), toLowerCase = (\<lambda>x. x),
      toUpperCase = (\<lambda>x. x), unlinkSync = (\<lambda>p. None),
      chat_completions_create = (\<lambda>c. Inr [])\<rparr>
     (Some \<lparr>originalname = js ''a.txt'', path = js ''uploads/1''\<rparr>)
     \<lparr>CHUNKS = [], DATA_FILE = None\<rparr>
   = Some (ErrorReply 400 ''No text extracted'', \<lparr>CHUNKS = [], DATA_FILE = None\<rparr>)"
  using upload_file_rejects_blank[of
     "\<lparr>embeddings_create = (\<lambda>k t. Inr []), date_now = (\<lambda>i. 0),
      extract_text = (\<lambda>kind p. Inr (js ''  '')), toLowerCase = (\<lambda>x. x),
      toUpperCase = (\<lambda>x. x), unlinkSync = (\<lambda>p. None),
      chat_completions_create = (\<lambda>c. Inr [])\<rparr>"
     "\<lparr>originalname = js ''a.txt'', path = js ''uploads/1''\<rparr>" PlainText "js ''  ''"
     "\<lparr>CHUNKS = [], DATA_FILE = None\<rparr>"]
  by (simp add: file_kind_of_def last_segment_def js_def js_trim_def is_js_space_def)

text \<open>
  Claim C8 as stated fails for the ingestion operation \<open>processText\<close>: a text of two
  spaces is empty after trimming, and \<open>processText\<close> signals no error, creates one chunk and
  appends it to the store and to its snapshot.
\<close>

theorem processText_accepts_blank_counterexample:
  "js_trim [0x20, 0x20] = []
   \<and> processText (\<lambda>k t. Inr [Fin False 1 0]) (\<lambda>i. 7) [0x20, 0x20] (js ''TXT'')
       \<lparr>CHUNKS = [], DATA_FILE = None\<rparr>
     = Some (Inr 1,
         \<lparr>CHUNKS = [\<lparr>cid = js ''TXT_7_0'', ctext = [0x20, 0x20], embedding = [Fin False 1 0]\<rparr>],
          DATA_FILE = Some [\<lparr>cid = js ''TXT_7_0'', ctext = [0x20, 0x20],
                             embedding = [Fin False 1 0]\<rparr>]\<rparr>)"
  by (simp add: js_trim_def is_js_space_def processText_def chunkText_closed embedTextsBatch_50
      make_chunks_def enumerate_eq_zip saveChunks_def js_def Let_def)

section \<open>Properties of cosine similarity\<close>

text \<open>The definitions that evaluate an expression over numbers.\<close>

lemmas double_eval =
  cosineSimilarity_def dot_product_def sum_squares_def js_nth_def enumerate_eq_zip
  zero_def one_def round_double_def round_at_def round_cut_def round_signed_def round_sticky_def
  sqrt_scaled_def isqrt_step_def pack_def signed_def compute_bitlen isqrt.simps Let_def

lemma round_double_0 [simp]: "round_double s 0 e = Fin s 0 (- 1074)"
  by (simp add: round_double_def)

lemma is_zero_simps [simp]:
  "is_zero (Fin s m e) \<longleftrightarrow> m = 0" "\<not> is_zero NaN" "\<not> is_zero (Inf s)"
  by (simp_all add: is_zero_def)

lemma is_zero_zero [simp]: "is_zero zero"
  by (simp add: zero_def)

lemma dmul_zero_left: "is_zero x \<Longrightarrow> is_NaN (dmul x y) \<or> is_zero (dmul x y)"
  by (cases x; cases y) auto

lemma dmul_zero_right: "is_NaN y \<or> is_zero y \<Longrightarrow> is_NaN (dmul x y) \<or> is_zero (dmul x y)"
  by (cases x; cases y) auto

lemma dmul_zero_zero: "is_zero x \<Longrightarrow> is_zero y \<Longrightarrow> is_zero (dmul x y)"
  by (cases x; cases y) auto

lemma dadd_zero_or_NaN:
  "is_NaN x \<or> is_zero x \<Longrightarrow> is_NaN y \<or> is_zero y \<Longrightarrow> is_NaN (dadd x y) \<or> is_zero (dadd x y)"
  by (cases x; cases y) auto

lemma dadd_zero_zero: "is_zero x \<Longrightarrow> is_zero y \<Longrightarrow> is_zero (dadd x y)"
  by (cases x; cases y) auto

lemma dsqrt_zero: "is_zero x \<Longrightarrow> is_zero (dsqrt x)"
  by (cases x) auto

lemma ddiv_zero_or_NaN:
  "is_NaN x \<or> is_zero x \<Longrightarrow> is_NaN y \<or> is_zero y \<Longrightarrow> ddiv x y = NaN"
  by (cases x; cases y) auto

lemma sum_squares_zeros_aux:
  "\<forall>x\<in>set a. is_zero x \<Longrightarrow> is_zero acc
     \<Longrightarrow> is_zero (foldl (\<lambda>sum val. dadd sum (dmul val val)) acc a)"
  by (induction a arbitrary: acc) (simp_all add: dadd_zero_zero dmul_zero_zero)

lemma sum_squares_zeros: "\<forall>x\<in>set a. is_zero x \<Longrightarrow> is_zero (sum_squares a)"
  by (simp add: sum_squares_def sum_squares_zeros_aux)

lemma dot_zeros_left_aux:
  "\<forall>p\<in>set ps. is_zero (snd p) \<Longrightarrow> is_NaN acc \<or> is_zero acc
     \<Longrightarrow> is_NaN (foldl (\<lambda>sum (i, val). dadd sum (dmul val (js_nth b i))) acc ps)
        \<or> is_zero (foldl (\<lambda>sum (i, val). dadd sum (dmul val (js_nth b i))) acc ps)"
proof (induction ps arbitrary: acc)
  case Nil
  then show ?case by simp
next
  case (Cons p ps)
  obtain i val where p: "p = (i, val)" by (cases p)
  have "is_NaN (dadd acc (dmul val (js_nth b i))) \<or> is_zero (dadd acc (dmul val (js_nth b i)))"
    using Cons.prems p by (intro dadd_zero_or_NaN dmul_zero_left) auto
  then show ?case using Cons.IH Cons.prems(1) p by simp
qed

lemma js_nth_zeros: "\<forall>x\<in>set b. is_zero x \<Longrightarrow> is_NaN (js_nth b i) \<or> is_zero (js_nth b i)"
  by (simp add: js_nth_def)

lemma dot_zeros_right_aux:
  "\<forall>x\<in>set b. is_zero x \<Longrightarrow> is_NaN acc \<or> is_zero acc
     \<Longrightarrow> is_NaN (foldl (\<lambda>sum (i, val). dadd sum (dmul val (js_nth b i))) acc ps)
        \<or> is_zero (foldl (\<lambda>sum (i, val). dadd sum (dmul val (js_nth b i))) acc ps)"
proof (induction ps arbitrary: acc)
  case Nil
  then show ?case by simp
next
  case (Cons p ps)
  obtain i val where p: "p = (i, val)" by (cases p)
  have "is_NaN (dadd acc (dmul val (js_nth b i))) \<or> is_zero (dadd acc (dmul val (js_nth b i)))"
    using Cons.prems by (intro dadd_zero_or_NaN dmul_zero_right js_nth_zeros) auto
  then show ?case using Cons.IH Cons.prems(1) p by simp
qed

lemma dot_product_zeros:
  assumes "(\<forall>x\<in>set a. is_zero x) \<or> (\<forall>x\<in>set b. is_zero x)"
  shows "is_NaN (dot_product a b) \<or> is_zero (dot_product a b)"
  using assms
proof
  assume "\<forall>x\<in>set a. is_zero x"
  then have "\<forall>p\<in>set (enumerate 0 a). is_zero (snd p)"
    by (auto simp: in_set_enumerate_eq)
  then show ?thesis unfolding dot_product_def by (intro dot_zeros_left_aux) simp_all
next
  assume "\<forall>x\<in>set b. is_zero x"
  then show ?thesis unfolding dot_product_def by (intro dot_zeros_right_aux) simp_all
qed

text \<open>
  Claim C6, as the code has it. The function has no guard against a zero magnitude: when
  every component of either vector is a zero (also for an empty vector), the result is
  \<open>NaN\<close>, whatever the other vector holds. It neither returns \<open>0\<close> nor rejects the input.
\<close>

theorem cosineSimilarity_zero_vector:
  assumes "(\<forall>x\<in>set a. is_zero x) \<or> (\<forall>x\<in>set b. is_zero x)"
  shows "cosineSimilarity a b = NaN"
proof -
  have "is_zero (dsqrt (sum_squares a)) \<or> is_zero (dsqrt (sum_squares b))"
    using assms by (auto intro: dsqrt_zero sum_squares_zeros)
  then have "is_NaN (dmul (dsqrt (sum_squares a)) (dsqrt (sum_squares b)))
             \<or> is_zero (dmul (dsqrt (sum_squares a)) (dsqrt (sum_squares b)))"
    using dmul_zero_left dmul_zero_right by blast
  then show ?thesis
    unfolding cosineSimilarity_def Let_def
    by (intro ddiv_zero_or_NaN dot_product_zeros assms)
qed

theorem cosineSimilarity_zero_vector_witness:
  "is_zero zero \<and> cosineSimilarity [one, one] [zero, zero] = NaN"
  using cosineSimilarity_zero_vector[of "[one, one]" "[zero, zero]"] by simp

text \<open>
  Claim C6 as stated fails: for the all-zero vector \<open>[0, 0]\<close> and the vector \<open>[1, 0]\<close> the
  function returns \<open>NaN\<close>.
\<close>

theorem cosineSimilarity_NaN_counterexample:
  "is_zero zero \<and> cosineSimilarity [zero, zero] [one, zero] = NaN"
  by (simp add: double_eval)

section \<open>The operations stay within the format\<close>

text \<open>
  Rounding returns a value of the format, and leaves a value of the format as it is; so
  every operation returns a value of the format.
\<close>

lemma bitlen_nat_bounds:
  assumes "0 < (m::nat)"
  shows "1 \<le> bitlen (int m)" "2 ^ nat (bitlen (int m) - 1) \<le> m" "m < 2 ^ nat (bitlen (int m))"
proof -
  show "1 \<le> bitlen (int m)" using assms by (simp add: bitlen_alt_def)
  have b: "2 ^ nat (bitlen (int m) - 1) \<le> int m \<and> int m < 2 ^ nat (bitlen (int m))"
    using bitlen_bounds[of "int m"] assms by simp
  show "2 ^ nat (bitlen (int m) - 1) \<le> m"
    using b by (metis of_nat_le_iff of_nat_numeral of_nat_power)
  show "m < 2 ^ nat (bitlen (int m))"
    using b by (metis of_nat_less_iff of_nat_numeral of_nat_power)
qed

lemma pack_is_double:
  assumes "q \<le> 2 ^ 53" "- 1074 \<le> e" "q < 2 ^ 52 \<longrightarrow> e = - 1074"
  shows "is_double (pack s q e)"
  using assms by (auto simp: pack_def is_double_def)

lemma round_double_is_double: "is_double (round_double s m e)"
proof (cases "m = 0")
  case True
  then show ?thesis by (simp add: round_double_def is_double_def)
next
  case False
  then have m: "0 < m" by simp
  define n where "n = bitlen (int m)"
  define e' where "e' = max (e + n - 53) (- 1074)"
  note b = bitlen_nat_bounds[OF m, folded n_def]
  have rd: "round_double s m e = round_at s m e e'"
    using False by (simp add: round_double_def e'_def n_def)
  have e'1: "- 1074 \<le> e'" "e + n - 53 \<le> e'" by (simp_all add: e'_def)
  show ?thesis
  proof (cases "e' \<le> e")
    case True
    define k where "k = nat (e - e')"
    have ra: "round_at s m e e' = pack s (m * 2 ^ k) e'"
      using True by (simp add: round_at_def k_def)
    have "nat n + k \<le> 53" using e'1 True b(1) by (simp add: k_def)
    then have p: "(2::nat) ^ (nat n + k) \<le> 2 ^ 53" by (intro power_increasing) simp_all
    have "m * 2 ^ k \<le> 2 ^ nat n * 2 ^ k" using b(3) by (intro mult_le_mono1) simp
    also have "\<dots> = 2 ^ (nat n + k)" by (simp add: power_add)
    finally have up: "m * 2 ^ k \<le> 2 ^ 53" using p by (rule order_trans)
    have low: "m * 2 ^ k < 2 ^ 52 \<longrightarrow> e' = - 1074"
    proof (rule impI, rule ccontr)
      assume lt: "m * 2 ^ k < 2 ^ 52" and "e' \<noteq> - 1074"
      then have "e' = e + n - 53" by (auto simp: e'_def max_def split: if_splits)
      then have "nat (n - 1) + k = 52" using b(1) True by (simp add: k_def)
      then have "(2::nat) ^ 52 = 2 ^ nat (n - 1) * 2 ^ k" by (simp add: power_add[symmetric])
      also have "\<dots> \<le> m * 2 ^ k" using b(2) by simp
      finally show False using lt by simp
    qed
    show ?thesis unfolding rd ra by (rule pack_is_double[OF up e'1(1) low])
  next
    case False
    define sh where "sh = nat (e' - e)"
    define q where "q = m div 2 ^ sh"
    define q' where "q' = (if 2 ^ (sh - 1) < m mod 2 ^ sh \<or> (m mod 2 ^ sh = 2 ^ (sh - 1) \<and> odd q)
                           then q + 1 else q)"
    have ra: "round_at s m e e' = pack s q' e'"
      using False by (simp add: round_at_def round_cut_def sh_def q_def q'_def)
    have "nat n \<le> sh + 53" using e'1 False by (simp add: sh_def)
    then have "(2::nat) ^ nat n \<le> 2 ^ (sh + 53)" by (intro power_increasing) simp_all
    then have "m < 2 ^ 53 * 2 ^ sh" using b(3) by (simp add: power_add mult.commute)
    then have "q < 2 ^ 53" unfolding q_def by (simp add: less_mult_imp_div_less)
    then have up: "q' \<le> 2 ^ 53" by (simp add: q'_def)
    have low: "q' < 2 ^ 52 \<longrightarrow> e' = - 1074"
    proof (rule impI, rule ccontr)
      assume lt: "q' < 2 ^ 52" and "e' \<noteq> - 1074"
      then have "e' = e + n - 53" by (auto simp: e'_def max_def split: if_splits)
      then have "nat (n - 1) = sh + 52" using b(1) False by (simp add: sh_def)
      then have "(2::nat) ^ 52 * 2 ^ sh \<le> m" using b(2) by (simp add: power_add mult.commute)
      then have "2 ^ 52 \<le> q" unfolding q_def by (simp add: less_eq_div_iff_mult_less_eq)
      then show False using lt by (simp add: q'_def split: if_splits)
    qed
    show ?thesis unfolding rd ra by (rule pack_is_double[OF up e'1(1) low])
  qed
qed

lemma round_double_id:
  assumes "is_double (Fin s m e)"
  shows "round_double s m e = Fin s m e"
proof (cases "m = 0")
  case True
  then show ?thesis using assms by (simp add: is_double_def)
next
  case False
  then have m: "0 < m" by simp
  define n where "n = bitlen (int m)"
  note b = bitlen_nat_bounds[OF m, folded n_def]
  have v: "m < 2 ^ 53" "- 1074 \<le> e" "e \<le> 971" "m < 2 ^ 52 \<longrightarrow> e = - 1074"
    using assms by (simp_all add: is_double_def)
  have n53: "n \<le> 53"
  proof (rule ccontr)
    assume "\<not> n \<le> 53"
    then have "53 \<le> nat (n - 1)" by simp
    then have "(2::nat) ^ 53 \<le> 2 ^ nat (n - 1)" by (intro power_increasing) simp_all
    then show False using b(2) v(1) by simp
  qed
  have "max (e + n - 53) (- 1074) = e"
  proof (cases "m < 2 ^ 52")
    case True
    then show ?thesis using v(4) n53 by simp
  next
    case False
    have "n = 53"
    proof (rule ccontr)
      assume "n \<noteq> 53"
      then have "nat n \<le> 52" using n53 by simp
      then have "(2::nat) ^ nat n \<le> 2 ^ 52" by (intro power_increasing) simp_all
      then show False using b(3) False by simp
    qed
    then show ?thesis using v(2) by simp
  qed
  then show ?thesis
    using False v by (simp add: round_double_def round_at_def pack_def n_def)
qed

lemma dadd_is_double: "is_double (dadd x y)"
  by (cases x; cases y)
     (auto simp: round_signed_def round_double_is_double, simp_all add: is_double_def)

lemma dmul_is_double: "is_double (dmul x y)"
  by (cases x; cases y) (auto simp: round_double_is_double, simp_all add: is_double_def)

lemma ddiv_is_double: "is_double (ddiv x y)"
  by (cases x; cases y)
     (auto simp: round_sticky_def round_double_is_double, simp_all add: is_double_def)

lemma dsqrt_is_double: "is_double (dsqrt x)"
  by (cases x)
     (auto simp: sqrt_scaled_def round_sticky_def round_double_is_double, simp_all add: is_double_def)

text \<open>The integer square root is the floor of the square root.\<close>

lemma isqrt_correct: "(isqrt n)\<^sup>2 \<le> n \<and> n < (isqrt n + 1)\<^sup>2"
proof (induction n rule: isqrt.induct)
  case (1 n)
  show ?case
  proof (cases "n < 2")
    case True
    then have "n = 0 \<or> n = 1" by auto
    then show ?thesis by (subst (1 2) isqrt.simps) (auto simp: power2_eq_square)
  next
    case False
    define r where "r = isqrt (n div 4)"
    have ih: "r\<^sup>2 \<le> n div 4" "n div 4 < (r + 1)\<^sup>2" using 1 False by (simp_all add: r_def)
    have a: "(2 * r)\<^sup>2 \<le> n" using ih(1) by (simp add: power2_eq_square) 
    have "n div 4 + 1 \<le> (r + 1)\<^sup>2" using ih(2) by simp
    then have "n < 4 * (r + 1)\<^sup>2" by linarith
    then have b: "n < (2 * r + 2)\<^sup>2" by (simp add: power2_eq_square algebra_simps)
    have eq: "isqrt n = isqrt_step (2 * r) n"
      using False by (subst isqrt.simps) (simp add: r_def)
    show ?thesis
      unfolding eq isqrt_step_def using a b
      by (auto simp: power2_eq_square algebra_simps)
  qed
qed

text \<open>
  Some values of the arithmetic: \<open>1/10\<close>, \<open>0.1 + 0.2 = 0.30000000000000004\<close> and not
  \<open>3/10\<close>, \<open>\<surd>2\<close> and its square \<open>2.0000000000000004\<close>, an overflow, and a tie among the
  subnormal numbers.
\<close>

lemma double_examples:
  "ddiv one (round_double False 10 0) = Fin False 0x1999999999999A (- 56)"
  "dadd (ddiv one (round_double False 10 0)) (ddiv one (round_double False 5 0))
     = Fin False 0x13333333333334 (- 54)"
  "ddiv (round_double False 3 0) (round_double False 10 0) = Fin False 0x13333333333333 (- 54)"
  "dsqrt (round_double False 2 0) = Fin False 0x16A09E667F3BCD (- 52)"
  "dmul (dsqrt (round_double False 2 0)) (dsqrt (round_double False 2 0))
     = Fin False 0x10000000000001 (- 51)"
  "dmul (Fin False (2 ^ 53 - 1) 971) (round_double False 2 0) = Inf False"
  "ddiv (Fin False 3 (- 1074)) (round_double False 2 0) = Fin False 2 (- 1074)"
  by (simp_all add: double_eval)

section \<open>The order of numbers\<close>

lemma exp_ok_simps [simp]:
  "exp_ok (Fin s m e) \<longleftrightarrow> - 1074 \<le> e" "exp_ok NaN" "exp_ok (Inf s)"
  by (simp_all add: exp_ok_def)

lemma pack_cases:
  "pack s q e = Inf s \<or> pack s q e = Fin s q e \<or> pack s q e = Fin s (2 ^ 52) (e + 1)"
  by (simp add: pack_def)

lemma pack_exp_ok: "- 1074 \<le> e \<Longrightarrow> exp_ok (pack s q e)"
  by (simp add: pack_def)

lemma round_double_exp_ok: "exp_ok (round_double s m e)"
  by (simp add: round_double_def round_at_def round_cut_def pack_exp_ok)

lemma ddiv_exp_ok: "exp_ok (ddiv x y)"
  by (cases x; cases y) (simp_all add: round_sticky_def round_double_exp_ok)

lemma pack_sign:
  assumes "0 < q"
  shows "pack s q e = Inf s \<or> (\<exists>q' e'. pack s q e = Fin s q' e' \<and> 0 < q')"
  using assms by (simp add: pack_def)

lemma round_double_sign:
  assumes "0 < m" "- 1074 \<le> e"
  shows "round_double s m e = Inf s \<or> (\<exists>q e'. round_double s m e = Fin s q e' \<and> 0 < q)"
proof -
  define n where "n = bitlen (int m)"
  define e' where "e' = max (e + n - 53) (- 1074)"
  have rd: "round_double s m e = round_at s m e e'"
    using assms(1) by (simp add: round_double_def e'_def n_def)
  show ?thesis
  proof (cases "e' \<le> e")
    case True
    then have "round_at s m e e' = pack s (m * 2 ^ nat (e - e')) e'"
      by (simp add: round_at_def)
    then show ?thesis using pack_sign[of "m * 2 ^ nat (e - e')" s e'] assms(1) rd by simp
  next
    case False
    then have e': "e' = e + n - 53" "53 < n"
      using assms(2) by (auto simp: e'_def max_def split: if_splits)
    define sh where "sh = nat (e' - e)"
    have sh: "nat (n - 1) = sh + 52" using e' by (simp add: sh_def)
    have "2 ^ nat (n - 1) \<le> int m"
      using bitlen_bounds[of "int m"] assms(1) by (simp add: n_def)
    then have "(2::nat) ^ (sh + 52) \<le> m" unfolding sh
      by (metis of_nat_le_iff of_nat_numeral of_nat_power)
    then have "2 ^ 52 * 2 ^ sh \<le> m" by (simp add: power_add mult.commute)
    then have "2 ^ 52 \<le> m div 2 ^ sh"
      by (simp add: less_eq_div_iff_mult_less_eq)
    then have q: "0 < m div 2 ^ sh" by (rule less_le_trans[rotated]) simp
    have "round_at s m e e' =
          pack s (if 2 ^ (sh - 1) < m mod 2 ^ sh \<or> (m mod 2 ^ sh = 2 ^ (sh - 1) \<and> odd (m div 2 ^ sh))
                  then m div 2 ^ sh + 1 else m div 2 ^ sh) e'"
      using False by (simp add: round_at_def round_cut_def sh_def)
    then show ?thesis
      using rd q
        pack_sign[of "m div 2 ^ sh + 1" s e'] pack_sign[of "m div 2 ^ sh" s e']
      by (auto split: if_splits)
  qed
qed

lemma dless_zero_Fin [simp]: "dless zero (Fin s q e) \<longleftrightarrow> \<not> s \<and> 0 < q"
  by (simp add: zero_def signed_def zero_less_mult_iff mult_less_0_iff)

lemma dless_zero_Inf [simp]: "dless zero (Inf s) \<longleftrightarrow> \<not> s"
  by (simp add: zero_def)

lemma dless_zero_NaN [simp]: "\<not> dless zero NaN"
  by (simp add: zero_def)

lemma round_double_positive:
  assumes "0 < m" "- 1074 \<le> e"
  shows "dless zero (round_double s m e) \<longleftrightarrow> \<not> s"
  using round_double_sign[OF assms, of s] by auto

lemma dless_key:
  assumes "\<not> is_NaN a" "\<not> is_NaN b" "exp_ok a" "exp_ok b"
  shows "dless a b \<longleftrightarrow> order_key a < order_key b"
proof (cases a; cases b)
  fix s m e t n f
  assume ab: "a = Fin s m e" "b = Fin t n f"
  define g where "g = min e f"
  have g: "- 1074 \<le> g" "g \<le> e" "g \<le> f" using assms ab by (auto simp: g_def)
  define c :: int where "c = 2 ^ nat (g + 1074)"
  have c: "0 < c" by (simp add: c_def)
  have x: "int m * 2 ^ nat (e + 1074) = int m * 2 ^ nat (e - g) * c"
    using g by (simp add: c_def power_add[symmetric] nat_add_distrib[symmetric])
  have y: "int n * 2 ^ nat (f + 1074) = int n * 2 ^ nat (f - g) * c"
    using g by (simp add: c_def power_add[symmetric] nat_add_distrib[symmetric])
  have sx: "signed s (int m * 2 ^ nat (e + 1074)) = signed s (int m * 2 ^ nat (e - g)) * c"
    unfolding x by (simp add: signed_def)
  have sy: "signed t (int n * 2 ^ nat (f + 1074)) = signed t (int n * 2 ^ nat (f - g)) * c"
    unfolding y by (simp add: signed_def)
  show ?thesis
    using c by (simp add: ab sx sy g_def[symmetric])
qed (use assms in auto)

lemma signed_neg: "signed (\<not> s) x = - signed s x"
  by (simp add: signed_def)

lemma signed_less_0: "0 < x \<Longrightarrow> signed s x < 0 \<longleftrightarrow> s"
  by (simp add: signed_def)

lemma signed_0_less: "0 < x \<Longrightarrow> 0 < signed s x \<longleftrightarrow> \<not> s"
  by (simp add: signed_def)

lemma dsub_positive:
  assumes "\<not> is_NaN a" "\<not> is_NaN b" "exp_ok a" "exp_ok b"
  shows "dless zero (dsub b a) \<longleftrightarrow> dless a b"
proof (cases a; cases b)
  fix s m e t n f
  assume ab: "a = Fin s m e" "b = Fin t n f"
  define g where "g = min e f"
  have g: "- 1074 \<le> g" using assms ab by (auto simp: g_def)
  define A where "A = signed s (int m * 2 ^ nat (e - g))"
  define B where "B = signed t (int n * 2 ^ nat (f - g))"
  have dl: "dless a b \<longleftrightarrow> A < B" by (simp add: ab A_def B_def g_def)
  consider (nz) "n = 0" "m = 0" | (n0) "n = 0" "0 < m" | (m0) "0 < n" "m = 0" | (gen) "0 < n" "0 < m"
    by auto
  then show ?thesis
  proof cases
    case nz
    then show ?thesis by (simp add: ab dsub_def signed_def)
  next
    case n0
    then have "dsub b a = round_double (\<not> s) m e" by (simp add: ab dsub_def)
    moreover have "A < B \<longleftrightarrow> s"
      using n0 by (simp add: A_def B_def signed_def mult_less_0_iff zero_less_mult_iff)
    ultimately show ?thesis
      using round_double_positive[of m e "\<not> s"] n0 assms ab dl by simp
  next
    case m0
    then have "dsub b a = round_double t n f" by (simp add: ab dsub_def)
    moreover have "A < B \<longleftrightarrow> \<not> t"
      using m0 by (simp add: A_def B_def signed_def mult_less_0_iff zero_less_mult_iff)
    ultimately show ?thesis
      using round_double_positive[of n f t] m0 assms ab dl by simp
  next
    case gen
    have ds: "dsub b a = round_signed (B - A) g"
      using gen by (simp add: ab dsub_def A_def B_def g_def signed_neg min.commute)
    show ?thesis
    proof (cases "B - A = 0")
      case True
      then show ?thesis using ds dl by (simp add: round_signed_def zero_def)
    next
      case False
      then have "dless zero (round_signed (B - A) g) \<longleftrightarrow> \<not> (B - A < 0)"
        using round_double_positive[of "nat \<bar>B - A\<bar>" g "B - A < 0"] g
        by (simp add: round_signed_def)
      then show ?thesis using ds dl False by auto
    qed
  qed
qed (use assms in \<open>auto simp: dsub_def\<close>)

lemma dless_Fin_zero [simp]: "dless (Fin s q e) zero \<longleftrightarrow> s \<and> 0 < q"
  by (simp add: zero_def signed_def zero_less_mult_iff mult_less_0_iff)

lemma dless_Inf_zero [simp]: "dless (Inf s) zero \<longleftrightarrow> s"
  by (simp add: zero_def)

lemma dless_NaN_zero [simp]: "\<not> dless NaN zero"
  by (simp add: zero_def)

lemma round_double_negative:
  assumes "0 < m" "- 1074 \<le> e"
  shows "dless (round_double s m e) zero \<longleftrightarrow> s"
  using round_double_sign[OF assms, of s] by auto

lemma dsub_negative:
  assumes "\<not> is_NaN a" "\<not> is_NaN b" "exp_ok a" "exp_ok b"
  shows "dless (dsub b a) zero \<longleftrightarrow> dless b a"
proof (cases a; cases b)
  fix s m e t n f
  assume ab: "a = Fin s m e" "b = Fin t n f"
  define g where "g = min e f"
  have g: "- 1074 \<le> g" using assms ab by (auto simp: g_def)
  define A where "A = signed s (int m * 2 ^ nat (e - g))"
  define B where "B = signed t (int n * 2 ^ nat (f - g))"
  have dl: "dless b a \<longleftrightarrow> B < A" by (simp add: ab A_def B_def g_def min.commute)
  consider (nz) "n = 0" "m = 0" | (n0) "n = 0" "0 < m" | (m0) "0 < n" "m = 0" | (gen) "0 < n" "0 < m"
    by auto
  then show ?thesis
  proof cases
    case nz
    then show ?thesis by (simp add: ab dsub_def signed_def)
  next
    case n0
    then have "dsub b a = round_double (\<not> s) m e" by (simp add: ab dsub_def)
    moreover have "B < A \<longleftrightarrow> \<not> s"
      using n0 by (simp add: A_def B_def signed_def mult_less_0_iff zero_less_mult_iff)
    ultimately show ?thesis
      using round_double_negative[of m e "\<not> s"] n0 assms ab dl by simp
  next
    case m0
    then have "dsub b a = round_double t n f" by (simp add: ab dsub_def)
    moreover have "B < A \<longleftrightarrow> t"
      using m0 by (simp add: A_def B_def signed_def mult_less_0_iff zero_less_mult_iff)
    ultimately show ?thesis
      using round_double_negative[of n f t] m0 assms ab dl by simp
  next
    case gen
    have ds: "dsub b a = round_signed (B - A) g"
      using gen by (simp add: ab dsub_def A_def B_def g_def signed_neg min.commute)
    show ?thesis
    proof (cases "B - A = 0")
      case True
      then show ?thesis using ds dl by (simp add: round_signed_def)
    next
      case False
      then have "dless (round_signed (B - A) g) zero \<longleftrightarrow> B - A < 0"
        using round_double_negative[of "nat \<bar>B - A\<bar>" g "B - A < 0"] g
        by (simp add: round_signed_def)
      then show ?thesis using ds dl False by auto
    qed
  qed
qed (use assms in \<open>auto simp: dsub_def\<close>)
section \<open>Properties of the ranking\<close>

lemma js_slice_take: "js_slice xs 0 (int k) = take k xs"
  by (auto simp: js_slice_def Let_def min_def)

lemma length_insort_js [simp]: "length (insort_js f x xs) = Suc (length xs)"
  by (induction xs) auto

lemma engine_order_mset: "mset (engine_order f xs) = mset xs"
proof -
  have "\<exists>sort::('a \<Rightarrow> 'a \<Rightarrow> double) \<Rightarrow> 'a list \<Rightarrow> 'a list. \<forall>f xs. mset (sort f xs) = mset xs"
    by (rule exI[of _ "\<lambda>f xs. xs"]) simp
  then have "\<forall>f (xs::'a list). mset (engine_order f xs) = mset xs"
    unfolding engine_order_def by (rule someI_ex)
  then show ?thesis by blast
qed

lemma mset_insort_js [simp]: "mset (insort_js f x xs) = add_mset x (mset xs)"
  by (induction xs) auto

lemma mset_foldr_insort_js: "mset (foldr (insort_js f) xs []) = mset xs"
  by (induction xs) auto

lemma mset_js_sort [simp]: "mset (js_sort f xs) = mset xs"
  by (simp add: js_sort_def engine_order_mset mset_foldr_insort_js)

lemma length_js_sort [simp]: "length (js_sort f xs) = length xs"
  using mset_js_sort[of f xs] by (rule mset_eq_length)

lemma js_sort_consistent:
  "consistent f xs \<Longrightarrow> js_sort f xs = foldr (insort_js f) xs []"
  by (simp add: js_sort_def)

lemma consistent_ties:
  assumes "\<forall>a\<in>set xs. \<forall>b\<in>set xs. compare_sign f a b = 0"
  shows "consistent f xs"
  using assms by (simp add: consistent_def)

lemma desc_key_less: "desc_key y < desc_key x \<longleftrightarrow> order_key (score x) < order_key (score y)"
  by (cases "order_key (score x)"; cases "order_key (score y)") (auto simp: desc_key_def)

lemma desc_key_eq: "desc_key y = desc_key x \<longleftrightarrow> order_key (score x) = order_key (score y)"
  by (cases "order_key (score x)"; cases "order_key (score y)") (auto simp: desc_key_def)

lemma after_iff:
  assumes "good x" "good y"
  shows "dless zero (compare_scores x y) \<longleftrightarrow> \<not> desc_key x \<le> desc_key y"
  using assms dsub_positive[of "score x" "score y"] dless_key[of "score x" "score y"]
  by (simp add: compare_scores_def good_def desc_key_less not_le)

lemma dle_iff:
  assumes "good x" "good y"
  shows "dle (score y) (score x) \<longleftrightarrow> desc_key x \<le> desc_key y"
proof -
  have "dle (score y) (score x) \<longleftrightarrow> \<not> dless (score x) (score y)"
    using assms by (simp add: dle_def good_def)
  also have "\<dots> \<longleftrightarrow> \<not> desc_key y < desc_key x"
    using assms dless_key[of "score x" "score y"] by (simp add: good_def desc_key_less)
  finally show ?thesis by (simp add: not_less)
qed

lemma tie_iff:
  assumes "good x" "good y"
  shows "tie x y \<longleftrightarrow> desc_key x = desc_key y"
  using dle_iff[OF assms] dle_iff[OF assms(2,1)] by (auto simp: tie_def)

lemma insort_js_key:
  assumes "good x" "\<forall>y\<in>set ys. good y"
  shows "insort_js compare_scores x ys = insort_key desc_key x ys"
  using assms by (induction ys) (auto simp: after_iff)

lemma compare_sign_key:
  assumes "good x" "good y"
  shows "compare_sign compare_scores x y =
           (if desc_key y < desc_key x then 1 else if desc_key x < desc_key y then - 1 else 0)"
proof -
  have p: "dless zero (compare_scores x y) \<longleftrightarrow> desc_key y < desc_key x"
    using after_iff[OF assms] by (simp add: not_le)
  have "dless (compare_scores x y) zero \<longleftrightarrow> dless (score y) (score x)"
    using assms dsub_negative[of "score x" "score y"] by (simp add: compare_scores_def good_def)
  also have "\<dots> \<longleftrightarrow> desc_key x < desc_key y"
    using assms dless_key[of "score y" "score x"] by (simp add: good_def desc_key_less)
  finally show ?thesis using p by (simp add: compare_sign_def)
qed

lemma consistent_good:
  assumes "\<forall>x\<in>set xs. good x"
  shows "consistent compare_scores xs"
  unfolding consistent_def
proof (intro ballI)
  fix a b c assume "a \<in> set xs" "b \<in> set xs" "c \<in> set xs"
  then have g: "good a" "good b" "good c" using assms by auto
  show "compare_sign compare_scores a a = 0
        \<and> (compare_sign compare_scores a b = 0 \<longrightarrow> compare_sign compare_scores b a = 0)
        \<and> (compare_sign compare_scores a b = 0 \<and> compare_sign compare_scores b c = 0
             \<longrightarrow> compare_sign compare_scores a c = 0)
        \<and> (compare_sign compare_scores a b < 0 \<and> compare_sign compare_scores b c < 0
             \<longrightarrow> compare_sign compare_scores a c < 0)
        \<and> (0 < compare_sign compare_scores a b \<and> 0 < compare_sign compare_scores b c
             \<longrightarrow> 0 < compare_sign compare_scores a c)"
    using g by (auto simp: compare_sign_key split: if_splits)
qed

lemma js_sort_key:
  assumes "\<forall>x\<in>set xs. good x"
  shows "js_sort compare_scores xs = sort_key desc_key xs"
proof -
  have "foldr (insort_js compare_scores) xs [] = sort_key desc_key xs"
    using assms
  proof (induction xs)
    case Nil
    then show ?case by simp
  next
    case (Cons x xs)
    then have "foldr (insort_js compare_scores) xs [] = sort_key desc_key xs" by simp
    moreover have "\<forall>y\<in>set (sort_key desc_key xs). good y" using Cons.prems by simp
    ultimately show ?case
      using Cons.prems by (simp add: sort_key_def insort_js_key)
  qed
  then show ?thesis using consistent_good[OF assms] by (simp add: js_sort_def)
qed

lemma good_with_score:
  "\<not> is_NaN (cosineSimilarity q (embedding c)) \<Longrightarrow> good (with_score q c)"
  by (simp add: good_def with_score_def cosineSimilarity_def Let_def ddiv_exp_ok)

lemma rank_spec_take_sort:
  assumes "\<forall>x\<in>set xs. good x"
  shows "rank_spec k xs (take k (sort_key desc_key xs))"
proof -
  define S where "S = sort_key desc_key xs"
  have gS: "\<forall>x\<in>set S. good x" using assms by (simp add: S_def)
  have gT: "\<forall>x\<in>set (take k S). good x" using gS by (meson in_set_takeD)
  have sS: "sorted_wrt (\<lambda>a b. desc_key a \<le> desc_key b) S"
    using sorted_sort_key[of desc_key xs] by (simp add: S_def sorted_map)
  have split: "S = take k S @ drop k S" by simp
  have c1: "length (take k S) = min k (length xs)" by (simp add: S_def min.commute)
  have mS: "mset S = mset (take k S) + mset (drop k S)"
    by (metis split mset_append)
  have c2: "mset (take k S) \<subseteq># mset xs"
    using mS by (metis S_def mset_sort mset_subset_eq_add_left)
  have "sorted_wrt (\<lambda>a b. desc_key a \<le> desc_key b) (take k S)"
    using sS by simp
  then have c3: "sorted_wrt (\<lambda>a b. dle (score b) (score a)) (take k S)"
    by (rule sorted_wrt_mono_rel[rotated]) (use gT in \<open>simp add: dle_iff\<close>)
  have rest: "mset xs - mset (take k S) = mset (drop k S)"
    using mS by (simp add: S_def[symmetric] flip: mset_sort[of desc_key xs])
  have c4: "\<forall>x\<in>#(mset xs - mset (take k S)). \<forall>y\<in>set (take k S). dle (score x) (score y)"
  proof (intro ballI)
    fix x y assume x: "x \<in># mset xs - mset (take k S)" and y: "y \<in> set (take k S)"
    from x have xd: "x \<in> set (drop k S)" by (simp add: rest)
    have "sorted_wrt (\<lambda>a b. desc_key a \<le> desc_key b) (take k S @ drop k S)" using sS by simp
    then have "desc_key y \<le> desc_key x" using xd y unfolding sorted_wrt_append by blast
    moreover have "good x" "good y" using xd y gS by (meson in_set_dropD in_set_takeD)+
    ultimately show "dle (score x) (score y)" by (simp add: dle_iff)
  qed
  have c5: "\<forall>y\<in>set (take k S). prefix (filter (\<lambda>x. tie x y) (take k S)) (filter (\<lambda>x. tie x y) xs)"
  proof
    fix y assume y: "y \<in> set (take k S)"
    then have gy: "good y" using gT by blast
    have "filter (\<lambda>x. tie x y) xs = filter (\<lambda>x. desc_key x = desc_key y) xs"
      using assms gy by (intro filter_cong) (simp_all add: tie_iff)
    also have "\<dots> = filter (\<lambda>x. desc_key x = desc_key y) S"
      by (simp add: S_def sort_key_stable)
    also have "\<dots> = filter (\<lambda>x. tie x y) S"
      using gS gy by (intro filter_cong) (simp_all add: tie_iff)
    also have "\<dots> = filter (\<lambda>x. tie x y) (take k S) @ filter (\<lambda>x. tie x y) (drop k S)"
      by (metis split filter_append)
    finally show "prefix (filter (\<lambda>x. tie x y) (take k S)) (filter (\<lambda>x. tie x y) xs)"
      by simp
  qed
  show ?thesis
    unfolding rank_spec_def S_def[symmetric] using c1 c2 c3 c4 c5 by blast
qed

text \<open>
  Claim C2, as the code has it. When no stored chunk has the score \<open>NaN\<close>, the ranking with
  bound \<open>k\<close> meets the specification of a ranking: \<open>min k n\<close> scored chunks of the store, in
  descending order of score, none of the chunks left out scoring higher than a chunk
  returned, and among equal scores the first seen, in scan order. (The source has
  \<open>k = 5\<close>.)
\<close>

theorem ranked_top_k:
  assumes "\<forall>c\<in>set chunks. \<not> is_NaN (cosineSimilarity qEmbed (embedding c))"
  shows "rank_spec k (map (with_score qEmbed) chunks) (ranked k qEmbed chunks)"
proof -
  have g: "\<forall>x\<in>set (map (with_score qEmbed) chunks). good x"
    using assms by (auto intro: good_with_score)
  show ?thesis
    unfolding ranked_def js_slice_take js_sort_key[OF g]
    by (rule rank_spec_take_sort[OF g])
qed

lemma js_slice_take_numeral: "js_slice xs 0 (numeral k) = take (numeral k) xs"
  using js_slice_take[of xs "numeral k"] by simp

lemma NaN_right [simp]:
  "dadd x NaN = NaN" "dmul x NaN = NaN" "ddiv x NaN = NaN" "\<not> dless x NaN"
  by (cases x; simp)+

lemmas rank_eval =
  js_slice_take_numeral with_score_def compare_scores_def dsub_def
  zero_chunk_def unit_chunk_def other_chunk_def

lemma unit_scores:
  "cosineSimilarity [one, zero] [one, zero] = one"
  "cosineSimilarity [one, zero] [zero, one] = zero"
  "cosineSimilarity [one, zero] [zero, zero] = NaN"
  by (simp_all add: double_eval)

lemma example_scores_good:
  "good (with_score [one, zero] unit_chunk)" "good (with_score [one, zero] other_chunk)"
  by (simp_all add: good_def with_score_def unit_chunk_def other_chunk_def unit_scores)
     (simp_all add: zero_def one_def)

lemma example_ties:
  "compare_sign compare_scores (with_score [one, zero] zero_chunk) x = 0"
  "compare_sign compare_scores x (with_score [one, zero] zero_chunk) = 0"
  "compare_sign compare_scores (with_score [one, zero] unit_chunk)
     (with_score [one, zero] unit_chunk) = 0"
  by (simp_all add: compare_sign_def compare_scores_def dsub_def with_score_def zero_chunk_def
        unit_chunk_def unit_scores)
     (simp_all add: zero_def one_def signed_def round_signed_def)

theorem ranked_top_k_witness:
  "rank_spec 5 (map (with_score [one, zero]) [other_chunk, unit_chunk])
     (ranked 5 [one, zero] [other_chunk, unit_chunk])
   \<and> ranked 5 [one, zero] [other_chunk, unit_chunk]
       = [with_score [one, zero] unit_chunk, with_score [one, zero] other_chunk]
   \<and> score (with_score [one, zero] unit_chunk) = one
   \<and> score (with_score [one, zero] other_chunk) = zero"
proof -
  have c: "consistent compare_scores (map (with_score [one, zero]) [other_chunk, unit_chunk])"
    by (rule consistent_good) (simp add: example_scores_good)
  have ev: "ranked 5 [one, zero] [other_chunk, unit_chunk]
       = [with_score [one, zero] unit_chunk, with_score [one, zero] other_chunk]"
    unfolding ranked_def js_sort_consistent[OF c]
    by (simp add: rank_eval unit_scores) (simp add: zero_def one_def signed_def round_double_def round_at_def pack_def compute_bitlen)
  show ?thesis
    using ranked_top_k[of "[other_chunk, unit_chunk]" "[one, zero]" 5] ev
    by (simp add: unit_scores with_score_def zero_chunk_def unit_chunk_def other_chunk_def)
       (simp add: zero_def one_def)
qed

text \<open>
  Claim C2 as stated fails when a score is \<open>NaN\<close>: every comparison with such a score counts
  as a tie, so the sort leaves the store below, where every comparison is a tie, in scan
  order. For a store of five chunks with
  the zero vector as embedding followed by a chunk whose embedding is the query, the five
  results are the five chunks of score \<open>NaN\<close>, and the chunk of score \<open>1\<close> is left out.
\<close>

theorem ranked_NaN_counterexample:
  "ranked 5 [one, zero]
     [zero_chunk, zero_chunk, zero_chunk, zero_chunk, zero_chunk, unit_chunk]
   = replicate 5 (with_score [one, zero] zero_chunk)
   \<and> score (with_score [one, zero] zero_chunk) = NaN
   \<and> score (with_score [one, zero] unit_chunk) = one
   \<and> \<not> rank_spec 5
         (map (with_score [one, zero])
            [zero_chunk, zero_chunk, zero_chunk, zero_chunk, zero_chunk, unit_chunk])
         (ranked 5 [one, zero]
            [zero_chunk, zero_chunk, zero_chunk, zero_chunk, zero_chunk, unit_chunk])"
proof -
  have c: "consistent compare_scores
             (map (with_score [one, zero])
                [zero_chunk, zero_chunk, zero_chunk, zero_chunk, zero_chunk, unit_chunk])"
    by (rule consistent_ties) (simp add: example_ties)
  have ev: "ranked 5 [one, zero]
     [zero_chunk, zero_chunk, zero_chunk, zero_chunk, zero_chunk, unit_chunk]
   = replicate 5 (with_score [one, zero] zero_chunk)"
    unfolding ranked_def js_sort_consistent[OF c]
    by (simp add: rank_eval unit_scores numeral_eq_Suc)
  have sc: "score (with_score [one, zero] zero_chunk) = NaN"
    by (simp add: with_score_def zero_chunk_def unit_scores)
  have "\<not> sorted_wrt (\<lambda>a b. dle (score b) (score a)) (replicate 5 (with_score [one, zero] zero_chunk))"
    by (simp add: numeral_eq_Suc sc dle_def)
  then show ?thesis
    using ev sc by (simp add: rank_spec_def with_score_def unit_chunk_def unit_scores)
qed

section \<open>Rounding errors and the bounds on cosine similarity\<close>

subsection \<open>Powers of two and the rounding of a mantissa\<close>

lemma pow2_pos [simp]: "0 < pow2 e"
  by (simp add: pow2_def)

lemma pow2_nonneg [simp]: "0 \<le> pow2 e"
  by (simp add: pow2_def)

lemma pow2_add: "pow2 (a + b) = pow2 a * pow2 b"
  by (simp add: pow2_def powr_add)

lemma pow2_nat: "pow2 (int k) = 2 ^ k"
  by (simp add: pow2_def powr_realpow)

lemma pow2_0 [simp]: "pow2 0 = 1"
  by (simp add: pow2_def)

lemma pow2_le_iff [simp]: "pow2 a \<le> pow2 b \<longleftrightarrow> a \<le> b"
  by (simp add: pow2_def)

lemma pow2_less_iff [simp]: "pow2 a < pow2 b \<longleftrightarrow> a < b"
  by (simp add: pow2_def)

lemma pow2_diff: "pow2 (a - b) = pow2 a / pow2 b"
  by (simp add: pow2_def powr_diff)

lemma pow2_split: "a \<le> b \<Longrightarrow> pow2 b = 2 ^ nat (b - a) * pow2 a"
proof -
  have "pow2 (b - a) = 2 ^ nat (b - a)" if "a \<le> b"
    using that pow2_nat[of "nat (b - a)"] by simp
  then show "a \<le> b \<Longrightarrow> pow2 b = 2 ^ nat (b - a) * pow2 a"
    using pow2_add[of "b - a" a] by simp
qed

lemma mantissa_bounds:
  assumes "0 < (m::nat)"
  shows "pow2 (e + bitlen (int m) - 1) \<le> real m * pow2 e" "real m * pow2 e < pow2 (e + bitlen (int m))"
proof -
  define n where "n = bitlen (int m)"
  note b = bitlen_nat_bounds[OF assms, folded n_def]
  have "real ((2::nat) ^ nat (n - 1)) \<le> real m" using b(2) by (simp only: of_nat_le_iff)
  then have "pow2 (n - 1) \<le> real m" using b(1) pow2_nat[of "nat (n - 1)"] by simp
  then have "pow2 (n - 1) * pow2 e \<le> real m * pow2 e" by (intro mult_right_mono) simp_all
  then show "pow2 (e + bitlen (int m) - 1) \<le> real m * pow2 e"
    using pow2_add[of "n - 1" e] by (simp add: n_def algebra_simps)
  have "real m < real ((2::nat) ^ nat n)" using b(3) by (simp only: of_nat_less_iff)
  then have "real m < pow2 n" using b(1) pow2_nat[of "nat n"] by simp
  then have "real m * pow2 e < pow2 n * pow2 e" by (intro mult_strict_right_mono) simp_all
  then show "real m * pow2 e < pow2 (e + bitlen (int m))"
    using pow2_add[of n e] by (simp add: n_def algebra_simps)
qed

text \<open>The value that \<open>pack\<close> returns.\<close>

lemma pack_value:
  assumes "q \<le> 2 ^ 53" "e \<le> 970"
  shows "\<exists>q2 e2. pack s q e = Fin s q2 e2 \<and> real q2 * pow2 e2 = real q * pow2 e"
proof (cases "q = 2 ^ 53")
  case True
  have "pow2 (e + 1) = 2 * pow2 e" using pow2_add[of 1 e] pow2_nat[of 1] by (simp add: add.commute)
  then have "real ((2::nat) ^ 52) * pow2 (e + 1) = real q * pow2 e" using True by simp
  then show ?thesis using assms True by (simp add: pack_def)
next
  case False
  then show ?thesis using assms by (simp add: pack_def)
qed

text \<open>Rounding off \<open>sh\<close> bits moves the mantissa by at most half a unit of the last place.\<close>

lemma round_at_near:
  assumes "e < e'"
  defines "sh \<equiv> nat (e' - e)"
  shows "\<exists>q. round_at s m e e' = pack s q e'
           \<and> m \<le> q * 2 ^ sh + 2 ^ (sh - 1) \<and> q * 2 ^ sh \<le> m + 2 ^ (sh - 1)
           \<and> (odd m \<and> 2 \<le> sh \<longrightarrow> m < q * 2 ^ sh + 2 ^ (sh - 1) \<and> q * 2 ^ sh < m + 2 ^ (sh - 1))"
proof -
  define q0 where "q0 = m div 2 ^ sh"
  define r where "r = m mod 2 ^ sh"
  define half :: nat where "half = 2 ^ (sh - 1)"
  define q where "q = (if half < r \<or> (r = half \<and> odd q0) then q0 + 1 else q0)"
  have sh: "1 \<le> sh" using assms by (simp add: sh_def)
  have two: "(2::nat) ^ sh = 2 * half"
    using sh by (cases sh) (simp_all add: half_def)
  have m: "m = q0 * 2 ^ sh + r"
    unfolding q0_def r_def by (rule div_mult_mod_eq[symmetric])
  have r: "r < 2 ^ sh" by (simp add: r_def)
  have ra: "round_at s m e e' = pack s q e'"
    using assms(1) by (simp add: round_at_def round_cut_def sh_def q_def q0_def r_def half_def)
  have a: "m \<le> q * 2 ^ sh + half" "q * 2 ^ sh \<le> m + half"
    using r unfolding m q_def two by (auto simp: algebra_simps)
  have b: "m < q * 2 ^ sh + half \<and> q * 2 ^ sh < m + half" if "odd m" "2 \<le> sh"
  proof -
    have "even half" using that(2) by (simp add: half_def)
    moreover have "odd r" using that(1) sh unfolding m by (simp add: two)
    ultimately have "r \<noteq> half" by auto
    then show ?thesis using r unfolding m q_def two by (auto simp: algebra_simps)
  qed
  show ?thesis using ra a b unfolding half_def by blast
qed

subsection \<open>The error of rounding\<close>

text \<open>
  Rounding a number within the range of the normal numbers, or one that is a multiple of \<open>2\<^sup>-\<^sup>1\<^sup>0\<^sup>7\<^sup>4\<close>, changes it by at most the fraction \<open>2\<^sup>-\<^sup>5\<^sup>3\<close> of its magnitude.
\<close>

lemma round_q_bound:
  assumes "q * 2 ^ sh \<le> m + 2 ^ (sh - 1)" "m < 2 ^ (sh + 53)" "1 \<le> sh"
  shows "q \<le> (2::nat) ^ 53"
proof -
  have "(2::nat) ^ (sh - 1) < 2 ^ sh" using assms(3) by (intro power_strict_increasing) simp_all
  then have "q * 2 ^ sh < 2 ^ (sh + 53) + 2 ^ sh" using assms(1,2) by linarith
  also have "\<dots> = (2 ^ 53 + 1) * 2 ^ sh" by (simp add: power_add algebra_simps)
  finally have "q < 2 ^ 53 + 1" by (simp only: mult_less_cancel2)
  then show ?thesis by simp
qed

lemma round_double_error:
  assumes "0 < m" "real m * pow2 e < pow2 1023"
    and "pow2 (- 1022) \<le> real m * pow2 e \<or> - 1074 \<le> e"
  shows "\<exists>q e2. round_double s m e = Fin s q e2
           \<and> \<bar>real q * pow2 e2 - real m * pow2 e\<bar> \<le> real m * pow2 e * rnd"
proof -
  define n where "n = bitlen (int m)"
  define e' where "e' = max (e + n - 53) (- 1074)"
  note b = bitlen_nat_bounds[OF assms(1), folded n_def]
  note mb = mantissa_bounds[OF assms(1), of e, folded n_def]
  have rd: "round_double s m e = round_at s m e e'"
    using assms(1) by (simp add: round_double_def e'_def n_def)
  have "pow2 (e + n - 1) < pow2 1023" using mb(1) assms(2) by (rule le_less_trans)
  then have top: "e + n \<le> 1023" by simp
  have rpos: "0 \<le> real m * pow2 e * rnd" by (simp add: rnd_def)
  show ?thesis
  proof (cases "e' \<le> e")
    case True
    define k where "k = nat (e - e')"
    have ra: "round_at s m e e' = pack s (m * 2 ^ k) e'"
      using True by (simp add: round_at_def k_def)
    have "e + n - 53 \<le> e'" by (simp add: e'_def)
    then have "nat n + k \<le> 53" using True b(1) by (simp add: k_def)
    then have p: "(2::nat) ^ (nat n + k) \<le> 2 ^ 53" by (intro power_increasing) simp_all
    have "m * 2 ^ k \<le> 2 ^ nat n * 2 ^ k" using b(3) by (intro mult_le_mono1) simp
    also have "\<dots> = 2 ^ (nat n + k)" by (simp add: power_add)
    finally have up: "m * 2 ^ k \<le> 2 ^ 53" using p by (rule order_trans)
    have e970: "e' \<le> 970" using top by (simp add: e'_def)
    obtain q2 e2 where q2: "pack s (m * 2 ^ k) e' = Fin s q2 e2"
        "real q2 * pow2 e2 = real (m * 2 ^ k) * pow2 e'"
      using pack_value[OF up e970, of s] by blast
    have "real (m * 2 ^ k) * pow2 e' = real m * pow2 e"
      using pow2_split[OF True] by (simp add: k_def)
    then have "\<bar>real q2 * pow2 e2 - real m * pow2 e\<bar> \<le> real m * pow2 e * rnd"
      using q2(2) rpos by (simp only: diff_self abs_zero)
    then show ?thesis using rd ra q2(1) by simp
  next
    case False
    then have lt: "e < e'" by simp
    have "- 1074 \<le> e + n - 53"
    proof (cases "- 1074 \<le> e")
      case True
      then show ?thesis using lt by (simp add: e'_def max_def split: if_splits)
    next
      case False
      then have "pow2 (- 1022) \<le> real m * pow2 e" using assms(3) by simp
      then have "pow2 (- 1022) < pow2 (e + n)" using mb(2) by (rule le_less_trans)
      then show ?thesis by simp
    qed
    then have e': "e' = e + n - 53" by (simp add: e'_def)
    define sh where "sh = nat (e' - e)"
    have sh: "1 \<le> sh" "nat n = sh + 53" "nat (n - 1) = sh + 52" "int sh = e' - e"
      using lt e' by (simp_all add: sh_def)
    obtain q where q: "round_at s m e e' = pack s q e'"
        "m \<le> q * 2 ^ sh + 2 ^ (sh - 1)" "q * 2 ^ sh \<le> m + 2 ^ (sh - 1)"
      using round_at_near[OF lt, of s m] unfolding sh_def by blast
    have up: "q \<le> 2 ^ 53"
      using q(3) b(3) sh(1) unfolding sh(2) by (rule round_q_bound)
    have e970: "e' \<le> 970" using top e' by simp
    obtain q2 e2 where q2: "pack s q e' = Fin s q2 e2" "real q2 * pow2 e2 = real q * pow2 e'"
      using pack_value[OF up e970, of s] by blast
    have pe: "pow2 e' = 2 ^ sh * pow2 e"
      using pow2_split[of e e'] lt by (simp add: sh_def)
    have r1: "real m \<le> real q * 2 ^ sh + 2 ^ (sh - 1)"
      using of_nat_mono[OF q(2), where 'a = real] by simp
    have r2: "real q * 2 ^ sh \<le> real m + 2 ^ (sh - 1)"
      using of_nat_mono[OF q(3), where 'a = real] by simp
    have "real ((2::nat) ^ (sh + 52)) \<le> real m"
      using b(2) unfolding sh(3) by (simp only: of_nat_le_iff)
    then have "2 ^ (sh + 52) * rnd \<le> real m * rnd"
      by (intro mult_right_mono) (simp_all add: rnd_def)
    moreover have "2 ^ (sh + 52) * rnd = (2::real) ^ (sh - 1)"
      using sh(1) by (cases sh) (simp_all add: rnd_def power_add)
    ultimately have half: "2 ^ (sh - 1) \<le> real m * rnd" by simp
    have "\<bar>real q * 2 ^ sh - real m\<bar> \<le> real m * rnd" using r1 r2 half by linarith
    then have "\<bar>real q * 2 ^ sh - real m\<bar> * pow2 e \<le> real m * rnd * pow2 e"
      by (intro mult_right_mono) simp_all
    moreover have "\<bar>real q * pow2 e' - real m * pow2 e\<bar> = \<bar>(real q * 2 ^ sh - real m) * pow2 e\<bar>"
      unfolding pe by (simp add: algebra_simps)
    moreover have "\<bar>(real q * 2 ^ sh - real m) * pow2 e\<bar> = \<bar>real q * 2 ^ sh - real m\<bar> * pow2 e"
      by (simp add: abs_mult)
    ultimately have "\<bar>real q * pow2 e' - real m * pow2 e\<bar> \<le> real m * pow2 e * rnd"
      by (simp add: algebra_simps)
    then show ?thesis using rd q(1) q2 by simp
  qed
qed

subsection \<open>Rounding below the normal numbers\<close>

text \<open>
  A number of magnitude at most \<open>2\<^sup>-\<^sup>1\<^sup>0\<^sup>2\<^sup>2\<close> is rounded to a number of magnitude at most \<open>2\<^sup>-\<^sup>1\<^sup>0\<^sup>2\<^sup>2\<close>.
\<close>

lemma pow2_1022: "pow2 (- 1022) = 2 ^ 52 * pow2 (- 1074)"
  using pow2_split[of "- 1074" "- 1022"] by simp

lemma round_double_small:
  assumes "0 < m" "real m * pow2 e \<le> pow2 (- 1022)"
  shows "\<exists>q e2. round_double s m e = Fin s q e2 \<and> real q * pow2 e2 \<le> pow2 (- 1022)"
proof -
  define n where "n = bitlen (int m)"
  define e' where "e' = max (e + n - 53) (- 1074)"
  note mb = mantissa_bounds[OF assms(1), of e, folded n_def]
  have rd: "round_double s m e = round_at s m e e'"
    using assms(1) by (simp add: round_double_def e'_def n_def)
  have "pow2 (e + n - 1) \<le> pow2 (- 1022)" using mb(1) assms(2) by (rule order_trans)
  then have e': "e' = - 1074" by (simp add: e'_def)
  have fin: "\<exists>q2 e2. pack s q e' = Fin s q2 e2 \<and> real q2 * pow2 e2 \<le> pow2 (- 1022)"
    if "q \<le> 2 ^ 52" for q
  proof -
    have "real q \<le> real ((2::nat) ^ 52)" using that by (simp only: of_nat_le_iff)
    then have "real q * pow2 e' \<le> 2 ^ 52 * pow2 (- 1074)"
      unfolding e' by (intro mult_right_mono) simp_all
    moreover have "pack s q e' = Fin s q e'" using that e' by (simp add: pack_def)
    ultimately show ?thesis using pow2_1022 by simp
  qed
  show ?thesis
  proof (cases "e' \<le> e")
    case True
    define k where "k = nat (e - e')"
    have ra: "round_at s m e e' = pack s (m * 2 ^ k) e'"
      using True by (simp add: round_at_def k_def)
    have pe: "pow2 e = 2 ^ k * pow2 e'" using pow2_split[OF True] by (simp add: k_def)
    have eq: "real (m * 2 ^ k) * pow2 e' = real m * pow2 e" unfolding pe by simp
    have "real m * pow2 e \<le> 2 ^ 52 * pow2 e'" using assms(2) unfolding pow2_1022 e' .
    then have "real (m * 2 ^ k) * pow2 e' \<le> 2 ^ 52 * pow2 e'" by (simp only: eq)
    then have "real (m * 2 ^ k) \<le> 2 ^ 52" by (simp only: mult_le_cancel_right_pos[OF pow2_pos])
    then have "real (m * 2 ^ k) \<le> real ((2::nat) ^ 52)" by simp
    then have "m * 2 ^ k \<le> 2 ^ 52" by (simp only: of_nat_le_iff)
    then show ?thesis using fin rd ra by simp
  next
    case False
    then have lt: "e < e'" by simp
    define sh where "sh = nat (e' - e)"
    have sh: "1 \<le> sh" "int sh = - 1074 - e" using lt e' by (simp_all add: sh_def)
    obtain q where q: "round_at s m e e' = pack s q e'" "q * 2 ^ sh \<le> m + 2 ^ (sh - 1)"
      using round_at_near[OF lt, of s m] unfolding sh_def by blast
    have "nat (- 1022 - e) = sh + 52" using sh(2) by simp
    then have "pow2 (- 1022) = 2 ^ (sh + 52) * pow2 e"
      using pow2_split[of e "- 1022"] lt e' by simp
    then have "real m * pow2 e \<le> 2 ^ (sh + 52) * pow2 e" using assms(2) by simp
    then have "real m \<le> real ((2::nat) ^ (sh + 52))" by simp
    then have m: "m \<le> 2 ^ (sh + 52)" by (simp only: of_nat_le_iff)
    have "(2::nat) ^ (sh - 1) < 2 ^ sh" using sh(1) by (intro power_strict_increasing) simp_all
    then have "q * 2 ^ sh < 2 ^ (sh + 52) + 2 ^ sh" using q(2) m by linarith
    also have "\<dots> = (2 ^ 52 + 1) * 2 ^ sh" by (simp add: power_add algebra_simps)
    finally have "q < 2 ^ 52 + 1" by (simp only: mult_less_cancel2)
    then have "q \<le> 2 ^ 52" by simp
    then show ?thesis using fin rd q(1) by simp
  qed
qed

subsection \<open>Rounding with a sticky bit\<close>

text \<open>
  The rounding of \<open>round_sticky\<close> is the rounding of the exact value \<open>y\<close> of which \<open>q\<close> is the integer part.
\<close>

lemma pow2_Suc: "pow2 E = 2 * pow2 (E - 1)"
  using pow2_add[of 1 "E - 1"] pow2_nat[of 1] by simp

lemma round_sticky_error:
  assumes "2 ^ 53 \<le> q" "real q \<le> y" "y < real q + 1" "exact \<longleftrightarrow> y = real q"
    and "y * pow2 E < pow2 1023" "pow2 (- 1022) \<le> y * pow2 E"
  shows "\<exists>q2 e2. round_sticky s q exact E = Fin s q2 e2
           \<and> \<bar>real q2 * pow2 e2 - y * pow2 E\<bar> \<le> y * pow2 E * rnd"
proof (cases exact)
  case True
  then have y: "y = real q" using assms(4) by simp
  have rs: "round_sticky s q exact E = round_double s (2 * q) (E - 1)"
    using True by (simp add: round_sticky_def)
  have eq: "real (2 * q) * pow2 (E - 1) = y * pow2 E"
    unfolding y pow2_Suc[of E] by simp
  have "0 < 2 * q" using assms(1) by (simp add: less_le_trans[of 0 "2 ^ 53" q])
  from round_double_error[OF this, of "E - 1" s] assms(5,6)
  show ?thesis unfolding eq rs by blast
next
  case False
  define M where "M = 2 * q + 1"
  define n where "n = bitlen (int M)"
  have Mpos: "0 < M" by (simp add: M_def)
  note b = bitlen_nat_bounds[OF Mpos, folded n_def]
  have rs: "round_sticky s q exact E = round_double s M (E - 1)"
    using False by (simp add: round_sticky_def M_def)
  have yq: "real q < y" using assms(2,4) False by simp
  define Y where "Y = 2 * y"
  have Y: "real M - 1 < Y" "Y < real M + 1" using yq assms(3) by (simp_all add: Y_def M_def)
  have x: "y * pow2 E = Y * pow2 (E - 1)" unfolding pow2_Suc[of E] Y_def by simp
  have n55: "55 \<le> n"
  proof (rule ccontr)
    assume "\<not> 55 \<le> n"
    then have "nat n \<le> 54" by simp
    then have "(2::nat) ^ nat n \<le> 2 ^ 54" by (intro power_increasing) simp_all
    then show False using b(3) assms(1) by (simp add: M_def)
  qed
  have "even ((2::nat) ^ nat (n - 1))" using n55 by simp
  moreover have "odd M" by (simp add: M_def)
  ultimately have "2 ^ nat (n - 1) \<noteq> M" by metis
  then have lo: "2 ^ nat (n - 1) \<le> M - 1" using b(2) by simp
  have "real ((2::nat) ^ nat (n - 1)) \<le> real (M - 1)" using lo by (simp only: of_nat_le_iff)
  then have rlo: "2 ^ nat (n - 1) \<le> real M - 1" using Mpos by (simp add: of_nat_diff)
  have "M + 1 \<le> 2 ^ nat n" using b(3) by simp
  then have "real (M + 1) \<le> real ((2::nat) ^ nat n)" by (simp only: of_nat_le_iff)
  then have rhi: "real M + 1 \<le> 2 ^ nat n" by simp
  have p1: "pow2 (n - 1) = 2 ^ nat (n - 1)" using pow2_nat[of "nat (n - 1)"] n55 by simp
  have p2: "pow2 n = 2 ^ nat n" using pow2_nat[of "nat n"] n55 by simp
  have "pow2 (n - 1) * pow2 (E - 1) \<le> Y * pow2 (E - 1)"
    unfolding p1 using rlo Y(1) by (intro mult_right_mono) simp_all
  then have xlo: "pow2 (E + n - 2) \<le> y * pow2 E"
    unfolding x using pow2_add[of "n - 1" "E - 1"] by (simp add: algebra_simps)
  have "Y * pow2 (E - 1) < pow2 n * pow2 (E - 1)"
    unfolding p2 using rhi Y(2) by (intro mult_strict_right_mono) simp_all
  then have xhi: "y * pow2 E < pow2 (E + n - 1)"
    unfolding x using pow2_add[of n "E - 1"] by (simp add: algebra_simps)
  have "pow2 (E + n - 2) < pow2 1023" using xlo assms(5) by (rule le_less_trans)
  then have top: "E + n \<le> 1024" by simp
  have "pow2 (- 1022) < pow2 (E + n - 1)" using assms(6) xhi by (rule le_less_trans)
  then have bot: "- 1074 \<le> E - 1 + n - 53" by simp
  define e' where "e' = E - 1 + n - 53"
  have rd: "round_double s M (E - 1) = round_at s M (E - 1) e'"
    using Mpos bot by (simp add: round_double_def e'_def n_def)
  have lt: "E - 1 < e'" using n55 by (simp add: e'_def)
  define sh where "sh = nat (e' - (E - 1))"
  have sh: "2 \<le> sh" "nat n = sh + 53" "nat (n - 1) = sh + 52"
    using n55 by (simp_all add: sh_def e'_def)
  obtain q' where q': "round_at s M (E - 1) e' = pack s q' e'"
      "M < q' * 2 ^ sh + 2 ^ (sh - 1)" "q' * 2 ^ sh < M + 2 ^ (sh - 1)"
    using round_at_near[OF lt, of s M] sh(1) \<open>odd M\<close> unfolding sh_def by blast
  have up: "q' \<le> 2 ^ 53"
    by (rule round_q_bound[of q' sh M]) (use q'(3) b(3) sh in simp_all)
  have e970: "e' \<le> 970" using top by (simp add: e'_def)
  obtain q2 e2 where q2: "pack s q' e' = Fin s q2 e2" "real q2 * pow2 e2 = real q' * pow2 e'"
    using pack_value[OF up e970, of s] by blast
  have pe: "pow2 e' = 2 ^ sh * pow2 (E - 1)"
    using pow2_split[of "E - 1" e'] lt by (simp add: sh_def)
  have "M + 1 \<le> q' * 2 ^ sh + 2 ^ (sh - 1)" using q'(2) by simp
  then have "real (M + 1) \<le> real (q' * 2 ^ sh + 2 ^ (sh - 1))" by (simp only: of_nat_le_iff)
  then have r1: "real M + 1 \<le> real q' * 2 ^ sh + 2 ^ (sh - 1)" by simp
  have "q' * 2 ^ sh + 1 \<le> M + 2 ^ (sh - 1)" using q'(3) by simp
  then have "real (q' * 2 ^ sh + 1) \<le> real (M + 2 ^ (sh - 1))" by (simp only: of_nat_le_iff)
  then have r2: "real q' * 2 ^ sh + 1 \<le> real M + 2 ^ (sh - 1)" by simp
  have near: "\<bar>real q' * 2 ^ sh - Y\<bar> \<le> 2 ^ (sh - 1)" using r1 r2 Y by linarith
  have "(2::real) ^ (sh + 52) \<le> Y" using rlo Y(1) unfolding sh(3) by linarith
  then have "2 ^ (sh + 52) * rnd \<le> Y * rnd"
    by (intro mult_right_mono) (simp_all add: rnd_def)
  moreover have "2 ^ (sh + 52) * rnd = (2::real) ^ (sh - 1)"
    using sh(1) by (cases sh) (simp_all add: rnd_def power_add)
  ultimately have "\<bar>real q' * 2 ^ sh - Y\<bar> \<le> Y * rnd" using near by linarith
  then have "\<bar>real q' * 2 ^ sh - Y\<bar> * pow2 (E - 1) \<le> Y * rnd * pow2 (E - 1)"
    by (intro mult_right_mono) simp_all
  moreover have "\<bar>real q' * pow2 e' - Y * pow2 (E - 1)\<bar> = \<bar>(real q' * 2 ^ sh - Y) * pow2 (E - 1)\<bar>"
    unfolding pe by (simp add: algebra_simps)
  moreover have "\<bar>(real q' * 2 ^ sh - Y) * pow2 (E - 1)\<bar> = \<bar>real q' * 2 ^ sh - Y\<bar> * pow2 (E - 1)"
    by (simp add: abs_mult)
  ultimately have "\<bar>real q' * pow2 e' - y * pow2 E\<bar> \<le> y * pow2 E * rnd"
    unfolding x by (simp add: algebra_simps)
  then show ?thesis using rs rd q'(1) q2 by simp
qed

lemma round_sticky_small:
  assumes "2 ^ 53 \<le> q" "real q \<le> y" "y * pow2 E < pow2 (- 1022)"
  shows "\<exists>q2 e2. round_sticky s q exact E = Fin s q2 e2 \<and> real q2 * pow2 e2 \<le> pow2 (- 1022)"
proof -
  define M where "M = 2 * q + (if exact then 0 else 1)"
  have Mpos: "0 < M" using assms(1) by (simp add: M_def less_le_trans[of 0 "2 ^ 53" q])
  have rs: "round_sticky s q exact E = round_double s M (E - 1)"
    by (simp add: round_sticky_def M_def)
  have "real q * pow2 E \<le> y * pow2 E" using assms(2) by (intro mult_right_mono) simp_all
  then have qE: "real q * pow2 E < pow2 (- 1022)" using assms(3) by (rule le_less_trans)
  have "real ((2::nat) ^ 53) \<le> real q" using assms(1) by (simp only: of_nat_le_iff)
  then have "2 ^ 53 * pow2 E \<le> real q * pow2 E" by (intro mult_right_mono) simp_all
  then have "2 ^ 53 * pow2 E < pow2 (- 1022)" using qE by (rule le_less_trans)
  then have "pow2 (53 + E) < pow2 (- 1022)" using pow2_add[of 53 E] pow2_nat[of 53] by simp
  then have E: "E < - 1075" by simp
  define j where "j = nat (- 1022 - E)"
  have pj: "pow2 (- 1022) = 2 ^ j * pow2 E" using pow2_split[of E "- 1022"] E by (simp add: j_def)
  have "real q * pow2 E < 2 ^ j * pow2 E" using qE unfolding pj .
  then have "real q < real ((2::nat) ^ j)" by simp
  then have "q < 2 ^ j" by (simp only: of_nat_less_iff)
  then have "M \<le> 2 * 2 ^ j" by (simp add: M_def)
  then have "real M \<le> real (2 * 2 ^ j)" by (simp only: of_nat_le_iff)
  then have "real M * pow2 (E - 1) \<le> real (2 * 2 ^ j) * pow2 (E - 1)"
    by (intro mult_right_mono) simp_all
  also have "\<dots> = pow2 (- 1022)" unfolding pj pow2_Suc[of E] by simp
  finally have "real M * pow2 (E - 1) \<le> pow2 (- 1022)" .
  from round_double_small[OF Mpos this, of s] show ?thesis unfolding rs .
qed

subsection \<open>The errors of multiplication and addition\<close>

lemma sg_simps [simp]: "\<bar>sg s\<bar> = 1" "sg s * sg s = 1" "sg s * sg t = sg (s \<noteq> t)" "sg (\<not> s) = - sg s"
  "sg False = 1" "sg True = - 1"
  by (simp_all add: sg_def)

lemma valof_Fin: "valof (Fin s m e) = sg s * (real m * pow2 e)"
  by (simp add: valof_def sg_def)

lemma valof_simps [simp]: "valof NaN = 0" "valof (Inf s) = 0"
  by (simp_all add: valof_def)

lemma is_finite_simps [simp]: "is_finite (Fin s m e)" "\<not> is_finite NaN" "\<not> is_finite (Inf s)"
  by (simp_all add: is_finite_def)

lemma is_finiteE:
  assumes "is_finite d"
  obtains s m e where "d = Fin s m e"
  using assms by (cases d) auto

lemma abs_valof_Fin: "\<bar>valof (Fin s m e)\<bar> = real m * pow2 e"
  by (simp add: valof_Fin abs_mult)

lemma rnd_pos [simp]: "0 < rnd" "0 \<le> rnd" "rnd < 1" "rnd \<le> 1"
  by (simp_all add: rnd_def)

lemma abs_sg_mult: "0 \<le> x \<Longrightarrow> \<bar>sg s * x\<bar> = x"
  by (simp add: sg_def)

lemma sg_error:
  assumes "\<bar>v - x\<bar> \<le> x * rnd" "0 \<le> x"
  shows "\<bar>sg s * v - sg s * x\<bar> \<le> \<bar>sg s * x\<bar> * rnd"
proof -
  have "sg s * v - sg s * x = sg s * (v - x)" by (simp add: algebra_simps)
  then have "\<bar>sg s * v - sg s * x\<bar> = \<bar>v - x\<bar>" by (simp add: abs_mult)
  then show ?thesis using assms by (simp add: abs_mult)
qed

lemma dmul_error:
  assumes "is_finite a" "is_finite b"
    and "valof a * valof b = 0
         \<or> (pow2 (- 1022) \<le> \<bar>valof a * valof b\<bar> \<and> \<bar>valof a * valof b\<bar> < pow2 1023)"
  shows "is_finite (dmul a b)
         \<and> \<bar>valof (dmul a b) - valof a * valof b\<bar> \<le> \<bar>valof a * valof b\<bar> * rnd"
proof -
  obtain s m e where a: "a = Fin s m e" using assms(1) by (rule is_finiteE)
  obtain t n f where b: "b = Fin t n f" using assms(2) by (rule is_finiteE)
  have d: "dmul a b = round_double (s \<noteq> t) (m * n) (e + f)" by (simp add: a b)
  define x where "x = real (m * n) * pow2 (e + f)"
  have p: "valof a * valof b = sg (s \<noteq> t) * x"
    by (simp add: a b valof_Fin x_def pow2_add algebra_simps)
  have ax: "\<bar>valof a * valof b\<bar> = x" unfolding p by (simp add: abs_mult x_def)
  show ?thesis
  proof (cases "m * n = 0")
    case True
    then have "dmul a b = Fin (s \<noteq> t) 0 (- 1074)" by (simp only: d True round_double_0)
    moreover have "x = 0" using True by (simp add: x_def)
    ultimately show ?thesis unfolding p by (simp add: valof_Fin)
  next
    case False
    then have pos: "0 < m * n" by simp
    then have "0 < x" by (simp add: x_def)
    then have "valof a * valof b \<noteq> 0" using ax by linarith
    then have r: "pow2 (- 1022) \<le> x" "x < pow2 1023" using assms(3) ax by simp_all
    obtain q e2 where q: "round_double (s \<noteq> t) (m * n) (e + f) = Fin (s \<noteq> t) q e2"
        "\<bar>real q * pow2 e2 - x\<bar> \<le> x * rnd"
      using round_double_error[OF pos, of "e + f" "s \<noteq> t"] r unfolding x_def by blast
    have "\<bar>sg (s \<noteq> t) * (real q * pow2 e2) - sg (s \<noteq> t) * x\<bar> \<le> \<bar>sg (s \<noteq> t) * x\<bar> * rnd"
      using q(2) \<open>0 < x\<close> by (intro sg_error) simp_all
    then show ?thesis unfolding d q(1) p by (simp add: valof_Fin)
  qed
qed

lemma signed_value:
  assumes "g \<le> e"
  shows "real_of_int (signed s (int m * 2 ^ nat (e - g))) * pow2 g = sg s * (real m * pow2 e)"
  unfolding pow2_split[OF assms] by (simp add: signed_def sg_def)

lemma dadd_error:
  assumes "is_finite a" "is_finite b" "exp_ok a" "exp_ok b"
    and "\<bar>valof a + valof b\<bar> < pow2 1023"
  shows "is_finite (dadd a b)
         \<and> \<bar>valof (dadd a b) - (valof a + valof b)\<bar> \<le> \<bar>valof a + valof b\<bar> * rnd"
proof -
  obtain s m e where a: "a = Fin s m e" using assms(1) by (rule is_finiteE)
  obtain t n f where b: "b = Fin t n f" using assms(2) by (rule is_finiteE)
  have ef: "- 1074 \<le> e" "- 1074 \<le> f" using assms(3,4) by (simp_all add: a b)
  have single: "is_finite (round_double t' n' f')
         \<and> \<bar>valof (round_double t' n' f') - sg t' * (real n' * pow2 f')\<bar>
             \<le> \<bar>sg t' * (real n' * pow2 f')\<bar> * rnd"
    if h: "0 < n'" "- 1074 \<le> f'" "real n' * pow2 f' < pow2 1023" for t' n' f'
  proof -
    obtain q e2 where q: "round_double t' n' f' = Fin t' q e2"
        "\<bar>real q * pow2 e2 - real n' * pow2 f'\<bar> \<le> real n' * pow2 f' * rnd"
      using round_double_error[OF h(1), of f' t'] h(2,3) by blast
    have "\<bar>sg t' * (real q * pow2 e2) - sg t' * (real n' * pow2 f')\<bar>
          \<le> \<bar>sg t' * (real n' * pow2 f')\<bar> * rnd"
      using q(2) by (intro sg_error) simp_all
    then show ?thesis unfolding q(1) by (simp add: valof_Fin)
  qed
  consider (zz) "m = 0" "n = 0" | (zn) "m = 0" "0 < n" | (nz) "0 < m" "n = 0" | (gen) "0 < m" "0 < n"
    by auto
  then show ?thesis
  proof cases
    case zz
    then show ?thesis by (simp add: a b valof_Fin)
  next
    case zn
    have "real n * pow2 f < pow2 1023" using assms(5) zn by (simp add: a b valof_Fin abs_mult)
    from single[OF zn(2) ef(2) this, of t] show ?thesis using zn by (simp add: a b valof_Fin)
  next
    case nz
    have "real m * pow2 e < pow2 1023" using assms(5) nz by (simp add: a b valof_Fin abs_mult)
    from single[OF nz(1) ef(1) this, of s] show ?thesis using nz by (simp add: a b valof_Fin)
  next
    case gen
    define g where "g = min e f"
    define v where "v = signed s (int m * 2 ^ nat (e - g)) + signed t (int n * 2 ^ nat (f - g))"
    have g: "g \<le> e" "g \<le> f" "- 1074 \<le> g" using ef by (simp_all add: g_def)
    have d: "dadd a b = round_signed v g" using gen by (simp add: a b v_def g_def)
    have sum: "valof a + valof b = real_of_int v * pow2 g"
      unfolding v_def a b valof_Fin
      using signed_value[OF g(1), of s m] signed_value[OF g(2), of t n]
      by (simp add: algebra_simps)
    show ?thesis
    proof (cases "v = 0")
      case True
      then show ?thesis unfolding d sum by (simp add: round_signed_def valof_Fin)
    next
      case False
      then have pos: "0 < nat \<bar>v\<bar>" by simp
      have rv: "real_of_int v = sg (v < 0) * real (nat \<bar>v\<bar>)" by (simp add: sg_def)
      have s2: "valof a + valof b = sg (v < 0) * (real (nat \<bar>v\<bar>) * pow2 g)"
        unfolding sum by (subst rv) simp
      have "real (nat \<bar>v\<bar>) * pow2 g < pow2 1023"
        using assms(5) unfolding s2 by (simp add: abs_mult)
      from single[OF pos g(3) this, of "v < 0"] show ?thesis
        unfolding d s2 using False by (simp add: round_signed_def)
    qed
  qed
qed

subsection \<open>The errors of division and square root\<close>

lemma ddiv_setup:
  assumes "0 < m" "0 < n" "n < 2 ^ 53"
  defines "q \<equiv> (m * 2 ^ 108) div n"
    and "y \<equiv> real (m * 2 ^ 108) / real n"
  shows "2 ^ 53 \<le> q" "real q \<le> y" "y < real q + 1" "((m * 2 ^ 108) mod n = 0) \<longleftrightarrow> y = real q"
proof -
  define r where "r = (m * 2 ^ 108) mod n"
  have dm: "m * 2 ^ 108 = q * n + r" unfolding q_def r_def by (rule div_mult_mod_eq[symmetric])
  have r: "r < n" unfolding r_def using assms(2) by simp
  have "real (m * 2 ^ 108) = real q * real n + real r" unfolding dm by simp
  then have y: "y = real q + real r / real n" using assms(2) by (simp add: y_def field_simps)
  have "real r / real n < 1" using r assms(2) by simp
  moreover have "0 \<le> real r / real n" by simp
  ultimately show "real q \<le> y" "y < real q + 1" unfolding y by simp_all
  show "((m * 2 ^ 108) mod n = 0) \<longleftrightarrow> y = real q"
    unfolding y r_def[symmetric] using assms(2) by simp
  have "2 ^ 53 * n \<le> 2 ^ 53 * 2 ^ 53" using assms(3) by simp
  also have "\<dots> \<le> 1 * 2 ^ 108" by simp
  also have "\<dots> \<le> m * 2 ^ 108" using assms(1) by (intro mult_le_mono1) simp
  finally show "2 ^ 53 \<le> q" unfolding q_def using assms(2) by (simp add: less_eq_div_iff_mult_less_eq)
qed

lemma ddiv_value:
  "real (m * 2 ^ 108) / real n * pow2 (e - f - 108) = (real m * pow2 e) / (real n * pow2 f)"
proof -
  have "pow2 (e - f - 108) = pow2 e / (pow2 f * 2 ^ 108)"
    using pow2_diff[of "e - f" 108] pow2_diff[of e f] pow2_nat[of 108] by simp
  then show ?thesis by simp
qed

lemma valof_div:
  "valof (Fin s m e) / valof (Fin t n f) = sg (s \<noteq> t) * ((real m * pow2 e) / (real n * pow2 f))"
  by (simp add: valof_Fin sg_def)

lemma ddiv_error:
  assumes "is_finite a" "is_finite b" "is_double b"
    and "pow2 (- 1022) \<le> \<bar>valof a / valof b\<bar>" "\<bar>valof a / valof b\<bar> < pow2 1023"
  shows "is_finite (ddiv a b)
         \<and> \<bar>valof (ddiv a b) - valof a / valof b\<bar> \<le> \<bar>valof a / valof b\<bar> * rnd"
proof -
  obtain s m e where a: "a = Fin s m e" using assms(1) by (rule is_finiteE)
  obtain t n f where b: "b = Fin t n f" using assms(2) by (rule is_finiteE)
  have "0 < \<bar>valof a / valof b\<bar>" using assms(4) by (rule less_le_trans[rotated]) simp
  then have "valof a \<noteq> 0" "valof b \<noteq> 0" by auto
  then have mn: "0 < m" "0 < n" by (cases "m = 0"; cases "n = 0"; simp add: a b valof_Fin)+
  have n53: "n < 2 ^ 53" using assms(3) by (simp add: b is_double_def)
  define q where "q = (m * 2 ^ 108) div n"
  define y where "y = real (m * 2 ^ 108) / real n"
  define E where "E = e - f - 108"
  note st = ddiv_setup[OF mn n53, folded q_def y_def]
  note st5 = ddiv_value[of m n e f, folded y_def E_def]
  have d: "ddiv a b = round_sticky (s \<noteq> t) q ((m * 2 ^ 108) mod n = 0) E"
    using mn by (simp add: a b q_def E_def)
  have p: "valof a / valof b = sg (s \<noteq> t) * (y * pow2 E)"
    unfolding a b valof_div st5 ..
  have ypos: "0 \<le> y * pow2 E" unfolding st5 by simp
  then have ax: "\<bar>valof a / valof b\<bar> = y * pow2 E" unfolding p by (rule abs_sg_mult)
  obtain q2 e2 where q2: "round_sticky (s \<noteq> t) q ((m * 2 ^ 108) mod n = 0) E = Fin (s \<noteq> t) q2 e2"
      "\<bar>real q2 * pow2 e2 - y * pow2 E\<bar> \<le> y * pow2 E * rnd"
    using round_sticky_error[OF st(1,2,3,4), of E "s \<noteq> t"] assms(4,5) unfolding ax by blast
  have "\<bar>sg (s \<noteq> t) * (real q2 * pow2 e2) - sg (s \<noteq> t) * (y * pow2 E)\<bar>
        \<le> \<bar>sg (s \<noteq> t) * (y * pow2 E)\<bar> * rnd"
    using q2(2) ypos by (intro sg_error)
  then show ?thesis unfolding d q2(1) p by (simp add: valof_Fin)
qed

lemma ddiv_small:
  assumes "is_finite a" "is_finite b" "is_double b" "valof b \<noteq> 0"
    and "\<bar>valof a / valof b\<bar> < pow2 (- 1022)"
  shows "is_finite (ddiv a b) \<and> \<bar>valof (ddiv a b)\<bar> \<le> pow2 (- 1022)"
proof -
  obtain s m e where a: "a = Fin s m e" using assms(1) by (rule is_finiteE)
  obtain t n f where b: "b = Fin t n f" using assms(2) by (rule is_finiteE)
  have n: "0 < n" using assms(4) by (auto simp: b valof_Fin)
  have n53: "n < 2 ^ 53" using assms(3) by (simp add: b is_double_def)
  show ?thesis
  proof (cases "m = 0")
    case True
    then have "ddiv a b = Fin (s \<noteq> t) 0 (- 1074)" using n by (simp add: a b round_sticky_def)
    then show ?thesis by (simp add: valof_Fin)
  next
    case False
    then have m: "0 < m" by simp
    define q where "q = (m * 2 ^ 108) div n"
    define y where "y = real (m * 2 ^ 108) / real n"
    define E where "E = e - f - 108"
    note st = ddiv_setup[OF m n n53, folded q_def y_def]
    note st5 = ddiv_value[of m n e f, folded y_def E_def]
    have d: "ddiv a b = round_sticky (s \<noteq> t) q ((m * 2 ^ 108) mod n = 0) E"
      using n by (simp add: a b q_def E_def)
    have p: "valof a / valof b = sg (s \<noteq> t) * (y * pow2 E)"
      unfolding a b valof_div st5 ..
    have ypos: "0 \<le> y * pow2 E" unfolding st5 by simp
    then have ax: "\<bar>valof a / valof b\<bar> = y * pow2 E" unfolding p by (rule abs_sg_mult)
    obtain q2 e2 where q2: "round_sticky (s \<noteq> t) q ((m * 2 ^ 108) mod n = 0) E = Fin (s \<noteq> t) q2 e2"
        "real q2 * pow2 e2 \<le> pow2 (- 1022)"
      using round_sticky_small[OF st(1,2), of E "s \<noteq> t"] assms(5) unfolding ax by blast
    show ?thesis unfolding d q2(1) using q2(2) by (simp add: abs_valof_Fin)
  qed
qed

lemma sqrt_pow2: "sqrt (pow2 (2 * t)) = pow2 t"
proof (rule real_sqrt_unique)
  show "(pow2 t)\<^sup>2 = pow2 (2 * t)" using pow2_add[of t t] by (simp add: power2_eq_square)
qed simp

lemma dsqrt_error:
  assumes "is_finite a" "0 < valof a" "exp_ok a" "valof a < pow2 1024"
  shows "is_finite (dsqrt a) \<and> \<bar>valof (dsqrt a) - sqrt (valof a)\<bar> \<le> sqrt (valof a) * rnd"
proof -
  obtain s m e where a: "a = Fin s m e" using assms(1) by (rule is_finiteE)
  have "0 \<le> real m * pow2 e" by simp
  then have s: "\<not> s" and m: "0 < m"
    using assms(2) by (cases s; cases "m = 0"; simp add: a valof_Fin)+
  have e: "- 1074 \<le> e" using assms(3) by (simp add: a)
  have va: "valof a = real m * pow2 e" using s by (simp add: a valof_Fin)
  define k where "k = nat (110 + e mod 2)"
  define M where "M = m * 2 ^ k"
  define r where "r = isqrt M"
  define t where "t = (e - (110 + e mod 2)) div 2"
  define y where "y = sqrt (real M)"
  have d: "dsqrt a = round_sticky False r (r * r = M) t"
    using s m by (simp add: a sqrt_scaled_def r_def M_def k_def t_def)
  have c: "r\<^sup>2 \<le> M" "M < (r + 1)\<^sup>2" using isqrt_correct[of M] by (simp_all add: r_def)
  have "sqrt (real (r\<^sup>2)) \<le> sqrt (real M)" using c(1) by (simp only: real_sqrt_le_iff of_nat_le_iff)
  then have y1: "real r \<le> y" by (simp add: y_def)
  have "sqrt (real M) < sqrt (real ((r + 1)\<^sup>2))"
    using c(2) by (simp only: real_sqrt_less_iff of_nat_less_iff)
  then have y2: "y < real r + 1" by (simp add: y_def)
  have y3: "(r * r = M) \<longleftrightarrow> y = real r"
  proof
    assume "r * r = M"
    then have "real M = (real r)\<^sup>2" by (simp add: power2_eq_square flip: of_nat_mult)
    then show "y = real r" by (simp add: y_def)
  next
    assume "y = real r"
    then have "(sqrt (real M))\<^sup>2 = (real r)\<^sup>2" by (simp add: y_def)
    then have "real M = real (r * r)" by (simp add: power2_eq_square)
    then show "r * r = M" by (simp only: of_nat_eq_iff)
  qed
  have k110: "110 \<le> k" by (simp add: k_def)
  have "(2::nat) ^ 110 \<le> 2 ^ k" using k110 by (intro power_increasing) simp_all
  also have "\<dots> \<le> M" using m by (simp add: M_def)
  finally have "2 ^ 110 < (r + 1)\<^sup>2" using c(2) by simp
  then have "(2 ^ 55)\<^sup>2 < (r + 1)\<^sup>2" by simp
  then have "2 ^ 55 < r + 1" by (rule power2_less_imp_less) simp
  then have y0: "2 ^ 53 \<le> r" by simp
  have t2: "2 * t = e - int k" by (simp add: t_def k_def)
  have "pow2 e = 2 ^ k * pow2 (e - int k)"
    using pow2_add[of "int k" "e - int k"] pow2_nat[of k] by simp
  then have "valof a = real M * pow2 (2 * t)" unfolding va M_def t2 by simp
  then have sq: "sqrt (valof a) = y * pow2 t"
    by (simp add: real_sqrt_mult sqrt_pow2 y_def)
  have "pow2 (- 1074) \<le> 1 * pow2 e" using e by simp
  also have "\<dots> \<le> valof a" unfolding va using m by (intro mult_right_mono) simp_all
  finally have "sqrt (pow2 (2 * (- 537))) \<le> sqrt (valof a)" by simp
  then have "pow2 (- 537) \<le> sqrt (valof a)" by (simp only: sqrt_pow2)
  then have lo: "pow2 (- 1022) \<le> y * pow2 t"
    unfolding sq by (rule order_trans[rotated]) simp
  have "sqrt (valof a) < sqrt (pow2 (2 * 512))" using assms(4) by simp
  then have "sqrt (valof a) < pow2 512" by (simp only: sqrt_pow2)
  then have hi: "y * pow2 t < pow2 1023"
    unfolding sq by (rule less_trans) simp
  obtain q2 e2 where q2: "round_sticky False r (r * r = M) t = Fin False q2 e2"
      "\<bar>real q2 * pow2 e2 - y * pow2 t\<bar> \<le> y * pow2 t * rnd"
    using round_sticky_error[OF y0 y1 y2 y3 hi lo, of False] by blast
  show ?thesis unfolding d q2(1) sq using q2(2) by (simp add: valof_Fin)
qed

subsection \<open>Sums of rounded numbers\<close>

lemma is_double_exp_ok: "is_double d \<Longrightarrow> exp_ok d"
  by (cases d) (simp_all add: is_double_def)

lemma pow_up:
  fixes x :: real
  assumes "0 \<le> x" "real k * x \<le> 1"
  shows "(1 + x) ^ k * (1 - real k * x) \<le> 1"
  using assms(2)
proof (induction k)
  case 0
  then show ?case by simp
next
  case (Suc k)
  have "real k * x \<le> real (Suc k) * x" using assms(1) by (intro mult_right_mono) simp_all
  then have kx: "real k * x \<le> 1" using Suc.prems by linarith
  have p: "0 \<le> (1 + x) ^ k" using assms(1) by simp
  have "(1 + x) * (1 - real (Suc k) * x) = 1 - real k * x - real (Suc k) * x * x"
    by (simp add: algebra_simps)
  moreover have "0 \<le> real (Suc k) * x * x" using assms(1) by simp
  ultimately have "(1 + x) * (1 - real (Suc k) * x) \<le> 1 - real k * x" by linarith
  then have "(1 + x) ^ k * ((1 + x) * (1 - real (Suc k) * x)) \<le> (1 + x) ^ k * (1 - real k * x)"
    using p by (rule mult_left_mono)
  also have "\<dots> \<le> 1" using Suc.IH[OF kx] .
  finally show ?case by (simp add: algebra_simps)
qed

lemma pow_up_le:
  fixes x :: real
  assumes "0 \<le> x" "real k * x < 1"
  shows "(1 + x) ^ k \<le> 1 / (1 - real k * x)"
proof -
  have "(1 + x) ^ k * (1 - real k * x) \<le> 1" using assms by (intro pow_up) simp_all
  then show ?thesis using assms(2) by (simp add: pos_le_divide_eq)
qed

lemma pow_down:
  fixes x :: real
  assumes "0 \<le> x" "x \<le> 1"
  shows "1 - real k * x \<le> (1 - x) ^ k"
  using Bernoulli_inequality[of "- x" k] assms by simp

lemma pow_rnd_le_2:
  assumes "k \<le> 2 ^ 52"
  shows "(1 + rnd) ^ k \<le> 2"
proof -
  have "real k \<le> real ((2::nat) ^ 52)" using assms by (simp only: of_nat_le_iff)
  then have "real k \<le> 2 ^ 52" by simp
  then have "real k * rnd \<le> 2 ^ 52 * rnd" by (intro mult_right_mono) simp_all
  then have h: "real k * rnd \<le> 1 / 2" by (simp add: rnd_def)
  then have "(1 + rnd) ^ k \<le> 1 / (1 - real k * rnd)" by (intro pow_up_le) simp_all
  also have "\<dots> \<le> 2" using h by (simp add: field_simps)
  finally show ?thesis .
qed

lemma foldl_dadd_bounds:
  assumes "\<forall>p\<in>set ps. is_finite p \<and> exp_ok p" "is_finite acc" "exp_ok acc"
    and "(\<bar>valof acc\<bar> + (\<Sum>p\<leftarrow>ps. \<bar>valof p\<bar>)) * (1 + rnd) ^ length ps < pow2 1023"
  shows "is_finite (foldl dadd acc ps) \<and> exp_ok (foldl dadd acc ps)
         \<and> \<bar>valof (foldl dadd acc ps)\<bar>
             \<le> (\<bar>valof acc\<bar> + (\<Sum>p\<leftarrow>ps. \<bar>valof p\<bar>)) * (1 + rnd) ^ length ps
         \<and> ((\<forall>p\<in>set ps. 0 \<le> valof p) \<and> 0 \<le> valof acc
              \<longrightarrow> (valof acc + (\<Sum>p\<leftarrow>ps. valof p)) * (1 - rnd) ^ length ps
                   \<le> valof (foldl dadd acc ps))"
  using assms
proof (induction ps arbitrary: acc)
  case Nil
  then show ?case by simp
next
  case (Cons p ps)
  define S where "S = (\<Sum>p\<leftarrow>ps. \<bar>valof p\<bar>)"
  define c where "c = (1 + rnd) ^ length ps"
  define va where "va = valof acc"
  define vp where "vp = valof p"
  define acc' where "acc' = dadd acc p"
  define v' where "v' = valof acc'"
  have S0: "0 \<le> S" unfolding S_def by (rule sum_list_nonneg) auto
  have c1: "1 \<le> c" unfolding c_def by (rule one_le_power) simp
  have hyp: "(\<bar>va\<bar> + \<bar>vp\<bar> + S) * ((1 + rnd) * c) < pow2 1023"
    using Cons.prems(4) by (simp add: S_def c_def va_def vp_def algebra_simps)
  have "1 * 1 \<le> (1 + rnd) * c" by (intro mult_mono) (use c1 in simp_all)
  then have c2: "1 \<le> (1 + rnd) * c" by simp
  have T0: "0 \<le> \<bar>va\<bar> + \<bar>vp\<bar> + S" using S0 by simp
  have "\<bar>va\<bar> + \<bar>vp\<bar> + S \<le> (\<bar>va\<bar> + \<bar>vp\<bar> + S) * ((1 + rnd) * c)"
    using mult_left_mono[OF c2 T0] by simp
  then have small: "\<bar>va + vp\<bar> < pow2 1023" using hyp S0 by linarith
  have p: "is_finite p" "exp_ok p" using Cons.prems(1) by simp_all
  have e: "is_finite acc'" "\<bar>v' - (va + vp)\<bar> \<le> \<bar>va + vp\<bar> * rnd"
    using dadd_error[OF Cons.prems(2) p(1) Cons.prems(3) p(2)] small
    by (simp_all add: acc'_def v'_def va_def vp_def)
  have ok: "exp_ok acc'" unfolding acc'_def by (rule is_double_exp_ok[OF dadd_is_double])
  have "\<bar>v'\<bar> \<le> \<bar>va + vp\<bar> + \<bar>va + vp\<bar> * rnd" using e(2) by linarith
  then have "\<bar>v'\<bar> \<le> \<bar>va + vp\<bar> * (1 + rnd)" by (simp add: algebra_simps)
  also have "\<dots> \<le> (\<bar>va\<bar> + \<bar>vp\<bar>) * (1 + rnd)" by (intro mult_right_mono) simp_all
  finally have v1: "\<bar>v'\<bar> \<le> (\<bar>va\<bar> + \<bar>vp\<bar>) * (1 + rnd)" .
  have "S \<le> S * (1 + rnd)" using S0 by (simp add: algebra_simps)
  then have "\<bar>v'\<bar> + S \<le> (\<bar>va\<bar> + \<bar>vp\<bar> + S) * (1 + rnd)" using v1 by (simp add: algebra_simps)
  then have step: "(\<bar>v'\<bar> + S) * c \<le> (\<bar>va\<bar> + \<bar>vp\<bar> + S) * ((1 + rnd) * c)"
    using mult_right_mono[of "\<bar>v'\<bar> + S" "(\<bar>va\<bar> + \<bar>vp\<bar> + S) * (1 + rnd)" c] c1
    by (simp add: algebra_simps)
  then have pre: "(\<bar>valof acc'\<bar> + (\<Sum>p\<leftarrow>ps. \<bar>valof p\<bar>)) * (1 + rnd) ^ length ps < pow2 1023"
    using hyp by (simp add: v'_def S_def c_def)
  have rest: "\<forall>p\<in>set ps. is_finite p \<and> exp_ok p" using Cons.prems(1) by simp
  note IH = Cons.IH[OF rest e(1) ok pre, folded S_def c_def v'_def]
  have f: "foldl dadd acc (p # ps) = foldl dadd acc' ps" by (simp add: acc'_def)
  have up: "\<bar>valof (foldl dadd acc' ps)\<bar> \<le> (\<bar>va\<bar> + \<bar>vp\<bar> + S) * ((1 + rnd) * c)"
    using IH step by linarith
  have low: "(valof acc + (\<Sum>p\<leftarrow>p # ps. valof p)) * (1 - rnd) ^ length (p # ps)
               \<le> valof (foldl dadd acc' ps)"
    if nn: "\<forall>q\<in>set (p # ps). 0 \<le> valof q" "0 \<le> valof acc"
  proof -
    define S' where "S' = (\<Sum>p\<leftarrow>ps. valof p)"
    define d where "d = (1 - rnd) ^ length ps"
    have S'0: "0 \<le> S'" unfolding S'_def by (rule sum_list_nonneg) (use nn(1) in auto)
    have d0: "0 \<le> d" unfolding d_def by simp
    have vv: "0 \<le> va" "0 \<le> vp" using nn by (simp_all add: va_def vp_def)
    have "(va + vp) - (va + vp) * rnd \<le> v'" using e(2) vv by (simp add: abs_if split: if_splits)
    then have "(va + vp) * (1 - rnd) \<le> v'" by (simp add: algebra_simps)
    moreover have "0 \<le> (va + vp) * (1 - rnd)" using vv by simp
    ultimately have v'0: "0 \<le> v'" "(va + vp) * (1 - rnd) \<le> v'" by linarith+
    have "(v' + S') * d \<le> valof (foldl dadd acc' ps)"
      using IH nn(1) v'0(1) by (simp add: S'_def d_def v'_def)
    moreover have "S' * (1 - rnd) \<le> S'" using S'0 by (simp add: algebra_simps)
    then have "(va + vp + S') * (1 - rnd) \<le> v' + S'" using v'0(2) by (simp add: algebra_simps)
    then have "(va + vp + S') * (1 - rnd) * d \<le> (v' + S') * d" using d0 by (rule mult_right_mono)
    ultimately show ?thesis by (simp add: S'_def d_def va_def vp_def algebra_simps)
  qed
  show ?case
    unfolding f using IH up low
    by (simp add: S_def c_def va_def vp_def algebra_simps)
qed

subsection \<open>Components within range and their products\<close>

text \<open>
  The dot product and the sum of squares are left folds of the addition over the rounded products of the components.
\<close>

lemma pow2_neq_0 [simp]: "pow2 e \<noteq> 0"
  using pow2_pos[of e] by linarith

lemma in_range_finite: "in_range x \<Longrightarrow> is_finite x"
  by (cases x) (simp_all add: in_range_def)

lemma in_range_zero: "in_range x \<Longrightarrow> is_zero x \<longleftrightarrow> valof x = 0"
  by (cases x) (simp_all add: in_range_def valof_Fin sg_def)

lemma in_range_val:
  assumes "in_range x"
  shows "valof x = 0 \<or> (pow2 (- 500) \<le> \<bar>valof x\<bar> \<and> \<bar>valof x\<bar> < pow2 500)"
proof -
  obtain s m e where x: "x = Fin s m e" using in_range_finite[OF assms] by (rule is_finiteE)
  show ?thesis
  proof (cases "m = 0")
    case True
    then show ?thesis by (simp add: x valof_Fin)
  next
    case False
    then have r: "2 ^ 52 \<le> m" "m < 2 ^ 53" "- 552 \<le> e" "e \<le> 447"
      using assms by (simp_all add: x in_range_def)
    have "real ((2::nat) ^ 52) \<le> real m" using r(1) by (simp only: of_nat_le_iff)
    then have l1: "2 ^ 52 * pow2 e \<le> real m * pow2 e" by (intro mult_right_mono) simp_all
    have l2: "pow2 (- 500) \<le> pow2 (52 + e)" using r(3) by simp
    have l3: "pow2 (52 + e) = 2 ^ 52 * pow2 e" using pow2_add[of 52 e] pow2_nat[of 52] by simp
    have lo: "pow2 (- 500) \<le> real m * pow2 e" using l2[unfolded l3] l1 by (rule order_trans)
    have "real m < real ((2::nat) ^ 53)" using r(2) by (simp only: of_nat_less_iff)
    then have h1: "real m * pow2 e < 2 ^ 53 * pow2 e" by (intro mult_strict_right_mono) simp_all
    have h2: "pow2 (53 + e) \<le> pow2 500" using r(4) by simp
    have h3: "pow2 (53 + e) = 2 ^ 53 * pow2 e" using pow2_add[of 53 e] pow2_nat[of 53] by simp
    have hi: "real m * pow2 e < pow2 500" using h1 h2[unfolded h3] by (rule less_le_trans)
    show ?thesis using lo hi by (simp add: x abs_valof_Fin)
  qed
qed

lemma dmul_in_range:
  assumes "in_range x" "in_range y"
  shows "is_finite (dmul x y)" "exp_ok (dmul x y)"
    "\<bar>valof (dmul x y) - valof x * valof y\<bar> \<le> \<bar>valof x * valof y\<bar> * rnd"
    "\<bar>valof x * valof y\<bar> \<le> pow2 1000"
    "valof x * valof y = 0 \<or> pow2 (- 1000) \<le> \<bar>valof x * valof y\<bar>"
proof -
  have r: "valof x * valof y = 0
        \<or> (pow2 (- 1000) \<le> \<bar>valof x * valof y\<bar> \<and> \<bar>valof x * valof y\<bar> < pow2 1000)"
  proof (cases "valof x = 0 \<or> valof y = 0")
    case True
    then show ?thesis by auto
  next
    case False
    then have bx: "pow2 (- 500) \<le> \<bar>valof x\<bar>" "\<bar>valof x\<bar> < pow2 500"
      and cy: "pow2 (- 500) \<le> \<bar>valof y\<bar>" "\<bar>valof y\<bar> < pow2 500"
      using in_range_val[OF assms(1)] in_range_val[OF assms(2)] by auto
    have "pow2 (- 500) * pow2 (- 500) \<le> \<bar>valof x\<bar> * \<bar>valof y\<bar>"
      using bx(1) cy(1) by (intro mult_mono) simp_all
    moreover have "\<bar>valof x\<bar> * \<bar>valof y\<bar> < pow2 500 * pow2 500"
      using bx(2) cy(2) by (intro mult_strict_mono) simp_all
    ultimately show ?thesis using pow2_add[of "- 500" "- 500"] pow2_add[of 500 500]
      by (simp add: abs_mult)
  qed
  have le1: "pow2 (- 1022) \<le> pow2 (- 1000)" "pow2 1000 < pow2 1023" by simp_all
  have "valof x * valof y = 0
        \<or> (pow2 (- 1022) \<le> \<bar>valof x * valof y\<bar> \<and> \<bar>valof x * valof y\<bar> < pow2 1023)"
    using r le1 by linarith
  from dmul_error[OF in_range_finite[OF assms(1)] in_range_finite[OF assms(2)] this]
  show "is_finite (dmul x y)"
    "\<bar>valof (dmul x y) - valof x * valof y\<bar> \<le> \<bar>valof x * valof y\<bar> * rnd" by simp_all
  show "exp_ok (dmul x y)" by (rule is_double_exp_ok[OF dmul_is_double])
  show "\<bar>valof x * valof y\<bar> \<le> pow2 1000" using r by auto
  show "valof x * valof y = 0 \<or> pow2 (- 1000) \<le> \<bar>valof x * valof y\<bar>" using r by auto
qed

lemma dot_product_fold_aux:
  assumes "length a = length b"
  shows "foldl (\<lambda>sum (i, val). dadd sum (dmul val (js_nth (p @ b) i))) acc (enumerate (length p) a)
         = foldl dadd acc (map (\<lambda>(x, y). dmul x y) (zip a b))"
  using assms
proof (induction a arbitrary: b p acc)
  case Nil
  then show ?case by simp
next
  case (Cons x a)
  then obtain y b' where b: "b = y # b'" by (cases b) auto
  have n: "js_nth (p @ y # b') (length p) = y" by (simp add: js_nth_def)
  have "foldl (\<lambda>sum (i, val). dadd sum (dmul val (js_nth ((p @ [y]) @ b') i))) (dadd acc (dmul x y))
          (enumerate (length (p @ [y])) a)
        = foldl dadd (dadd acc (dmul x y)) (map (\<lambda>(x, y). dmul x y) (zip a b'))"
    by (rule Cons.IH) (use Cons.prems b in simp)
  then show ?case by (simp add: b n)
qed

lemma dot_product_fold:
  assumes "length a = length b"
  shows "dot_product a b = foldl dadd zero (map (\<lambda>(x, y). dmul x y) (zip a b))"
  unfolding dot_product_def using dot_product_fold_aux[OF assms, of "[]" zero] by simp

lemma sum_squares_fold:
  "sum_squares a = foldl dadd zero (map (\<lambda>(x, y). dmul x y) (zip a a))"
proof -
  have "map (\<lambda>(x, y). dmul x y) (zip a a) = map (\<lambda>x. dmul x x) a"
    by (simp add: zip_same_conv_map)
  moreover have "foldl (\<lambda>sum val. dadd sum (dmul val val)) acc a = foldl dadd acc (map (\<lambda>x. dmul x x) a)"
    for acc by (induction a arbitrary: acc) simp_all
  ultimately show ?thesis by (simp add: sum_squares_def)
qed

lemma sum_list_bound:
  fixes f :: "'a \<Rightarrow> real"
  assumes "\<forall>x\<in>set xs. f x \<le> c"
  shows "sum_list (map f xs) \<le> real (length xs) * c"
  using assms by (induction xs) (simp_all add: algebra_simps)

subsection \<open>The computed sums of products\<close>

lemma zero_facts [simp]: "valof zero = 0" "is_finite zero" "exp_ok zero"
  by (simp_all add: zero_def valof_Fin)

lemma pow2_1021: "2 ^ 20 * pow2 1000 * 2 = pow2 1021"
  using pow2_add[of 21 1000] pow2_nat[of 21] by simp

lemma products_bounds:
  assumes r: "\<forall>z\<in>set zs. in_range (fst z) \<and> in_range (snd z)" and n: "length zs \<le> 2 ^ 20"
  defines "D \<equiv> foldl dadd zero (map (\<lambda>(x, y). dmul x y) zs)"
    and "E \<equiv> (\<Sum>z\<leftarrow>zs. \<bar>valof (fst z) * valof (snd z)\<bar>)"
  shows "is_finite D" "exp_ok D" "\<bar>valof D\<bar> \<le> E * (1 + rnd) ^ (length zs + 1)"
    "E \<le> real (length zs) * pow2 1000" "E * (1 + rnd) ^ (length zs + 1) \<le> pow2 1021"
    "(\<forall>z\<in>set zs. fst z = snd z) \<Longrightarrow> E * (1 - rnd) ^ (length zs + 1) \<le> valof D"
proof -
  define ps where "ps = map (\<lambda>(x, y). dmul x y) zs"
  define Sabs where "Sabs = (\<Sum>p\<leftarrow>ps. \<bar>valof p\<bar>)"
  have len: "length ps = length zs" by (simp add: ps_def)
  have E0: "0 \<le> E" unfolding E_def by (rule sum_list_nonneg) auto
  have fin: "\<forall>p\<in>set ps. is_finite p \<and> exp_ok p"
    using r dmul_in_range(1,2) by (auto simp: ps_def)
  have each: "\<bar>valof (dmul (fst z) (snd z))\<bar> \<le> (1 + rnd) * \<bar>valof (fst z) * valof (snd z)\<bar>"
    if "z \<in> set zs" for z
  proof -
    have "\<bar>valof (dmul (fst z) (snd z)) - valof (fst z) * valof (snd z)\<bar>
          \<le> \<bar>valof (fst z) * valof (snd z)\<bar> * rnd"
      using r that by (intro dmul_in_range(3)) simp_all
    then have "\<bar>valof (dmul (fst z) (snd z))\<bar>
          \<le> \<bar>valof (fst z) * valof (snd z)\<bar> + \<bar>valof (fst z) * valof (snd z)\<bar> * rnd"
      by linarith
    then show ?thesis by (simp add: algebra_simps)
  qed
  have "Sabs = (\<Sum>z\<leftarrow>zs. \<bar>valof (dmul (fst z) (snd z))\<bar>)"
    by (simp add: Sabs_def ps_def comp_def case_prod_unfold)
  also have "\<dots> \<le> (\<Sum>z\<leftarrow>zs. (1 + rnd) * \<bar>valof (fst z) * valof (snd z)\<bar>)"
    by (rule sum_list_mono) (rule each)
  also have "\<dots> = (1 + rnd) * E" unfolding E_def by (rule sum_list_const_mult)
  finally have Sabs: "Sabs \<le> (1 + rnd) * E" .
  show En: "E \<le> real (length zs) * pow2 1000"
    unfolding E_def by (rule sum_list_bound) (use r dmul_in_range(4) in auto)
  have "real (length zs) \<le> real ((2::nat) ^ 20)" using n by (simp only: of_nat_le_iff)
  then have "real (length zs) * pow2 1000 \<le> 2 ^ 20 * pow2 1000"
    by (intro mult_right_mono) simp_all
  then have E20: "E \<le> 2 ^ 20 * pow2 1000" using En by linarith
  have "length zs + 1 \<le> 2 ^ 52" using n by simp
  then have p2: "(1 + rnd) ^ (length zs + 1) \<le> 2" by (rule pow_rnd_le_2)
  have "E * (1 + rnd) ^ (length zs + 1) \<le> (2 ^ 20 * pow2 1000) * 2"
    using E20 p2 E0 by (intro mult_mono) simp_all
  then show top: "E * (1 + rnd) ^ (length zs + 1) \<le> pow2 1021" unfolding pow2_1021 .
  have c0: "0 \<le> (1 + rnd) ^ length zs" by simp
  have "Sabs * (1 + rnd) ^ length zs \<le> (1 + rnd) * E * (1 + rnd) ^ length zs"
    using Sabs c0 by (rule mult_right_mono)
  then have step: "Sabs * (1 + rnd) ^ length zs \<le> E * (1 + rnd) ^ (length zs + 1)"
    by (simp add: algebra_simps)
  have "(pow2 1021 :: real) < pow2 1023" by simp
  then have "Sabs * (1 + rnd) ^ length zs < pow2 1023" using step top by linarith
  then have pre: "(\<bar>valof zero\<bar> + (\<Sum>p\<leftarrow>ps. \<bar>valof p\<bar>)) * (1 + rnd) ^ length ps < pow2 1023"
    by (simp add: len Sabs_def[symmetric])
  note fb = foldl_dadd_bounds[OF fin zero_facts(2,3) pre, folded ps_def Sabs_def]
  show "is_finite D" "exp_ok D" using fb by (simp_all add: D_def ps_def)
  have "\<bar>valof D\<bar> \<le> Sabs * (1 + rnd) ^ length zs"
    using fb by (simp add: D_def ps_def[symmetric] len Sabs_def[symmetric])
  then show "\<bar>valof D\<bar> \<le> E * (1 + rnd) ^ (length zs + 1)" using step by linarith
  show "E * (1 - rnd) ^ (length zs + 1) \<le> valof D" if same: "\<forall>z\<in>set zs. fst z = snd z"
  proof -
    have low: "(1 - rnd) * \<bar>valof (fst z) * valof (snd z)\<bar> \<le> valof (dmul (fst z) (snd z))"
      if "z \<in> set zs" for z
    proof -
      have "\<bar>valof (dmul (fst z) (snd z)) - valof (fst z) * valof (snd z)\<bar>
            \<le> \<bar>valof (fst z) * valof (snd z)\<bar> * rnd"
        using r that by (intro dmul_in_range(3)) simp_all
      moreover have "0 \<le> valof (fst z) * valof (snd z)" using same that by simp
      ultimately have "\<bar>valof (fst z) * valof (snd z)\<bar> - \<bar>valof (fst z) * valof (snd z)\<bar> * rnd
            \<le> valof (dmul (fst z) (snd z))" by linarith
      then show ?thesis by (simp add: algebra_simps)
    qed
    have nn: "\<forall>p\<in>set ps. 0 \<le> valof p"
    proof
      fix p assume "p \<in> set ps"
      then obtain z where z: "z \<in> set zs" "p = dmul (fst z) (snd z)"
        by (auto simp: ps_def)
      have "0 \<le> (1 - rnd) * \<bar>valof (fst z) * valof (snd z)\<bar>" by simp
      then have "0 \<le> valof (dmul (fst z) (snd z))" using low[OF z(1)] by linarith
      then show "0 \<le> valof p" by (simp only: z(2))
    qed
    define S where "S = (\<Sum>p\<leftarrow>ps. valof p)"
    have "(1 - rnd) * E = (\<Sum>z\<leftarrow>zs. (1 - rnd) * \<bar>valof (fst z) * valof (snd z)\<bar>)"
      unfolding E_def by (rule sum_list_const_mult[symmetric])
    also have "\<dots> \<le> (\<Sum>z\<leftarrow>zs. valof (dmul (fst z) (snd z)))"
      by (rule sum_list_mono) (rule low)
    also have "\<dots> = S" by (simp add: S_def ps_def comp_def case_prod_unfold)
    finally have S: "(1 - rnd) * E \<le> S" .
    have d0: "0 \<le> (1 - rnd) ^ length zs" by simp
    have "S * (1 - rnd) ^ length zs \<le> valof D"
      using fb nn by (simp add: D_def ps_def[symmetric] len S_def)
    moreover have "(1 - rnd) * E * (1 - rnd) ^ length zs \<le> S * (1 - rnd) ^ length zs"
      using S d0 by (rule mult_right_mono)
    ultimately show ?thesis by (simp add: algebra_simps)
  qed
qed

subsection \<open>The computed norm\<close>

text \<open>
  The Cauchy-Schwarz inequality for lists, and the bounds on the computed sum of squares and on its square root.
\<close>

lemma cauchy_schwarz_list:
  fixes u v :: "'i \<Rightarrow> real"
  shows "(\<Sum>i\<leftarrow>xs. u i * v i)\<^sup>2 \<le> (\<Sum>i\<leftarrow>xs. u i * u i) * (\<Sum>i\<leftarrow>xs. v i * v i)"
proof -
  define A where "A = (\<Sum>i\<leftarrow>xs. u i * u i)"
  define B where "B = (\<Sum>i\<leftarrow>xs. v i * v i)"
  define D where "D = (\<Sum>i\<leftarrow>xs. u i * v i)"
  have poly: "(\<Sum>i\<leftarrow>xs. (u i * t + v i)\<^sup>2) = A * t\<^sup>2 + 2 * D * t + B" for t
    unfolding A_def B_def D_def
    by (induction xs) (simp_all add: algebra_simps power2_eq_square)
  have nonneg: "0 \<le> A * t\<^sup>2 + 2 * D * t + B" for t
    unfolding poly[symmetric] by (rule sum_list_nonneg) auto
  have A0: "0 \<le> A" unfolding A_def by (rule sum_list_nonneg) auto
  show ?thesis
  proof (cases "A = 0")
    case True
    have "D = 0"
    proof (rule ccontr)
      assume "D \<noteq> 0"
      then have "2 * D * (- (B + 1) / (2 * D)) + B = - 1" by (simp add: field_simps)
      then show False using nonneg[of "- (B + 1) / (2 * D)"] True by simp
    qed
    then show ?thesis using True by (simp add: A_def B_def D_def)
  next
    case False
    then have Ap: "0 < A" using A0 by simp
    have "A * (- D / A)\<^sup>2 + 2 * D * (- D / A) + B = B - D\<^sup>2 / A"
      using False by (simp add: field_simps power2_eq_square)
    then have "0 \<le> B - D\<^sup>2 / A" using nonneg[of "- D / A"] by simp
    then have "D\<^sup>2 / A \<le> B" by simp
    then have "D\<^sup>2 \<le> B * A" using Ap by (simp add: pos_divide_le_eq)
    then show ?thesis by (simp add: A_def B_def D_def mult.commute)
  qed
qed

lemma norm2_nonneg: "0 \<le> norm2 a"
  unfolding norm2_def by (rule sum_list_nonneg) auto

lemma zip_same_sum:
  "(\<Sum>z\<leftarrow>zip a a. \<bar>valof (fst z) * valof (snd z)\<bar>) = norm2 a"
  by (simp add: zip_same_conv_map comp_def norm2_def)

lemma pow2_half: "sqrt (pow2 (- 1000)) = pow2 (- 500)" "sqrt (pow2 1022) = pow2 511"
  using sqrt_pow2[of "- 500"] sqrt_pow2[of 511] by simp_all

lemma rnd_pow_ge_half:
  assumes "k \<le> 2 ^ 52"
  shows "1 / 2 \<le> (1 - rnd) ^ k"
proof -
  have "real k \<le> real ((2::nat) ^ 52)" using assms by (simp only: of_nat_le_iff)
  then have "real k \<le> 2 ^ 52" by simp
  then have "real k * rnd \<le> 2 ^ 52 * rnd" by (intro mult_right_mono) simp_all
  then have "real k * rnd \<le> 1 / 2" by (simp add: rnd_def)
  moreover have "1 - real k * rnd \<le> (1 - rnd) ^ k" by (rule pow_down) simp_all
  ultimately show ?thesis by linarith
qed

lemma norm_facts:
  assumes r: "\<forall>x\<in>set a. in_range x" and n: "length a \<le> 2 ^ 20" and nz: "\<exists>x\<in>set a. \<not> is_zero x"
  defines "s \<equiv> sum_squares a" and "A \<equiv> norm2 a"
  shows "is_finite s" "exp_ok s" "A * (1 - rnd) ^ (length a + 1) \<le> valof s"
    "valof s \<le> A * (1 + rnd) ^ (length a + 1)" "valof s \<le> pow2 1021" "pow2 (- 1000) \<le> A"
    "0 < valof s"
    "is_finite (dsqrt s)" "\<bar>valof (dsqrt s) - sqrt (valof s)\<bar> \<le> sqrt (valof s) * rnd"
    "sqrt A * (1 - rnd) ^ (length a + 2) \<le> valof (dsqrt s)"
    "pow2 (- 501) \<le> valof (dsqrt s)" "valof (dsqrt s) \<le> pow2 511 * (1 + rnd)"
proof -
  have rz: "\<forall>z\<in>set (zip a a). in_range (fst z) \<and> in_range (snd z)"
    using r by (auto simp: zip_same)
  have lz: "length (zip a a) \<le> 2 ^ 20" using n by simp
  have same: "\<forall>z\<in>set (zip a a). fst z = snd z" by (auto simp: zip_same)
  note pb = products_bounds[OF rz lz, unfolded zip_same_sum, folded sum_squares_fold s_def A_def]
  show fin: "is_finite s" and ok: "exp_ok s" using pb(1,2) .
  show lo: "A * (1 - rnd) ^ (length a + 1) \<le> valof s" using pb(6)[OF same] by simp
  have "valof s \<le> \<bar>valof s\<bar>" by simp
  then show hi: "valof s \<le> A * (1 + rnd) ^ (length a + 1)" using pb(3) by simp
  show top: "valof s \<le> pow2 1021" using hi pb(5) by simp
  obtain x where x: "x \<in> set a" "\<not> is_zero x" using nz by blast
  have xr: "in_range x" using r x(1) by simp
  then have "valof x \<noteq> 0" using x(2) in_range_zero by simp
  then have "valof x * valof x \<noteq> 0" by simp
  then have "pow2 (- 1000) \<le> \<bar>valof x * valof x\<bar>" using dmul_in_range(5)[OF xr xr] by simp
  moreover have "valof x * valof x \<le> A"
    unfolding A_def norm2_def by (rule member_le_sum_list) (use x(1) in auto)
  ultimately show A: "pow2 (- 1000) \<le> A" by simp
  have Apos: "0 < A" using A by (rule less_le_trans[rotated]) simp
  have k: "length a + 1 \<le> 2 ^ 52" using n by simp
  have half: "1 / 2 \<le> (1 - rnd) ^ (length a + 1)" using k by (rule rnd_pow_ge_half)
  then have "0 < (1 - rnd) ^ (length a + 1)" by linarith
  then have "0 < A * (1 - rnd) ^ (length a + 1)" using Apos by simp
  then show pos: "0 < valof s" using lo by linarith
  have "pow2 1021 < pow2 1024" by simp
  then have "valof s < pow2 1024" using top by linarith
  note sq = dsqrt_error[OF fin pos ok this]
  show "is_finite (dsqrt s)" "\<bar>valof (dsqrt s) - sqrt (valof s)\<bar> \<le> sqrt (valof s) * rnd"
    using sq by simp_all
  define c where "c = (1 - rnd) ^ (length a + 1)"
  have c: "0 \<le> c" "c \<le> 1" unfolding c_def by (simp, intro power_le_one) simp_all
  have "c * c \<le> c * 1" using c by (intro mult_left_mono) simp_all
  then have "sqrt (c * c) \<le> sqrt c" by (simp only: real_sqrt_le_iff mult_1_right)
  then have cs: "c \<le> sqrt c" using c(1) by simp
  have "sqrt (A * c) \<le> sqrt (valof s)" using lo unfolding c_def by (simp only: real_sqrt_le_iff)
  then have "sqrt A * sqrt c \<le> sqrt (valof s)" by (simp add: real_sqrt_mult)
  moreover have "sqrt A * c \<le> sqrt A * sqrt c" using cs Apos by (intro mult_left_mono) simp_all
  ultimately have s1: "sqrt A * c \<le> sqrt (valof s)" by linarith
  have s2: "sqrt (valof s) - sqrt (valof s) * rnd \<le> valof (dsqrt s)" using sq by linarith
  have "sqrt A * c * (1 - rnd) \<le> sqrt (valof s) * (1 - rnd)"
    using s1 by (intro mult_right_mono) simp_all
  then have "sqrt A * c * (1 - rnd) \<le> valof (dsqrt s)" using s2 by (simp add: algebra_simps)
  then show m1: "sqrt A * (1 - rnd) ^ (length a + 2) \<le> valof (dsqrt s)"
    by (simp add: c_def algebra_simps)
  have "length a + 2 \<le> 2 ^ 52" using n by simp
  then have half2: "1 / 2 \<le> (1 - rnd) ^ (length a + 2)" by (rule rnd_pow_ge_half)
  have "sqrt (pow2 (- 1000)) \<le> sqrt A" using A by (simp only: real_sqrt_le_iff)
  then have sA: "pow2 (- 500) \<le> sqrt A" by (simp only: pow2_half)
  have "pow2 (- 500) * (1 / 2) \<le> sqrt A * (1 - rnd) ^ (length a + 2)"
    using sA half2 Apos by (intro mult_mono) simp_all
  moreover have "pow2 (- 500) * (1 / 2) = pow2 (- 501)"
    using pow2_Suc[of "- 500"] by simp
  ultimately show "pow2 (- 501) \<le> valof (dsqrt s)" using m1 by linarith
  have "valof s \<le> pow2 1022" using top by (rule order_trans) simp
  then have "sqrt (valof s) \<le> sqrt (pow2 1022)" by (simp only: real_sqrt_le_iff)
  then have s3: "sqrt (valof s) \<le> pow2 511" by (simp only: pow2_half)
  have "valof (dsqrt s) \<le> sqrt (valof s) + sqrt (valof s) * rnd" using sq by linarith
  also have "\<dots> = sqrt (valof s) * (1 + rnd)" by (simp add: algebra_simps)
  also have "\<dots> \<le> pow2 511 * (1 + rnd)" using s3 by (intro mult_right_mono) simp_all
  finally show "valof (dsqrt s) \<le> pow2 511 * (1 + rnd)" .
qed

subsection \<open>The constants of the bounds\<close>

lemma self_bounds:
  "(1 + rnd) / (1 - rnd) ^ 3 \<le> 1 + 1 / 2 ^ 50" "1 - 1 / 2 ^ 50 \<le> (1 - rnd) / (1 + rnd) ^ 3"
  by (simp_all add: rnd_def field_simps power3_eq_cube)

lemma final_bound:
  assumes "N \<le> 2 ^ 20"
  shows "(1 + rnd) ^ (N + 2) / (1 - rnd) ^ (2 * N + 5) \<le> 1 + (real N + 3) / 2 ^ 50"
proof -
  define p where "p = real (N + 2) * rnd"
  define q where "q = real (2 * N + 5) * rnd"
  have "real N \<le> real ((2::nat) ^ 20)" using assms by (simp only: of_nat_le_iff)
  then have N: "real N \<le> 2 ^ 20" by simp
  have pq: "p + q = (3 * real N + 7) * rnd" by (simp add: p_def q_def algebra_simps)
  have "(3 * real N + 7) * rnd \<le> (3 * 2 ^ 20 + 7) * rnd" using N by (intro mult_right_mono) simp_all
  also have "\<dots> \<le> 1 / 2" by (simp add: rnd_def)
  finally have z: "p + q \<le> 1 / 2" unfolding pq .
  have p0: "0 \<le> p" "0 \<le> q" by (simp_all add: p_def q_def)
  have p1: "p < 1" "q < 1" using z p0 by linarith+
  have u1: "(1 + rnd) ^ (N + 2) \<le> 1 / (1 - p)"
    unfolding p_def by (rule pow_up_le) (use p1 in \<open>simp_all add: p_def\<close>)
  have u2: "1 - q \<le> (1 - rnd) ^ (2 * N + 5)"
    unfolding q_def by (rule pow_down) simp_all
  have pos: "0 < 1 - q" "0 < 1 - p" using p1 by simp_all
  have "(1 + rnd) ^ (N + 2) / (1 - rnd) ^ (2 * N + 5) \<le> (1 / (1 - p)) / (1 - q)"
    using u1 u2 pos by (intro frac_le) simp_all
  also have "\<dots> = 1 / ((1 - p) * (1 - q))" by simp
  also have "\<dots> \<le> 1 / (1 - (p + q))"
  proof -
    have "0 \<le> p * q" using p0 by simp
    then have "1 - (p + q) \<le> (1 - p) * (1 - q)" by (simp add: algebra_simps)
    moreover have "0 < 1 - (p + q)" using z by linarith
    ultimately show ?thesis by (intro divide_left_mono) (simp_all add: pos)
  qed
  also have "\<dots> \<le> 1 + 2 * (p + q)"
  proof -
    define w where "w = p + q"
    have w: "0 \<le> w" "w \<le> 1 / 2" using p0 z by (simp_all add: w_def)
    have "w * (2 * w) \<le> w * 1" using w by (intro mult_left_mono) simp_all
    then have "1 \<le> (1 + 2 * w) * (1 - w)" by (simp add: algebra_simps)
    then have "1 / (1 - w) \<le> 1 + 2 * w" using w by (simp add: pos_divide_le_eq)
    then show ?thesis by (simp add: w_def)
  qed
  also have "\<dots> \<le> 1 + (real N + 3) / 2 ^ 50"
    unfolding pq by (simp add: rnd_def field_simps)
  finally show ?thesis .
qed

subsection \<open>The range of the cosine similarity\<close>

lemma zip_sum_fst:
  assumes "length a = length b"
  shows "(\<Sum>z\<leftarrow>zip a b. f (fst z)) = (\<Sum>x\<leftarrow>a. f x)"
    "(\<Sum>z\<leftarrow>zip a b. g (snd z)) = (\<Sum>y\<leftarrow>b. g y)"
proof -
  have "map (\<lambda>z. f (fst z)) (zip a b) = map f (map fst (zip a b))" by simp
  then show "(\<Sum>z\<leftarrow>zip a b. f (fst z)) = (\<Sum>x\<leftarrow>a. f x)" using assms by (simp only: map_fst_zip)
  have "map (\<lambda>z. g (snd z)) (zip a b) = map g (map snd (zip a b))" by simp
  then show "(\<Sum>z\<leftarrow>zip a b. g (snd z)) = (\<Sum>y\<leftarrow>b. g y)" using assms by (simp only: map_snd_zip)
qed

lemma dot_abs_le:
  assumes "length a = length b"
  shows "(\<Sum>z\<leftarrow>zip a b. \<bar>valof (fst z) * valof (snd z)\<bar>) \<le> sqrt (norm2 a) * sqrt (norm2 b)"
proof -
  define E where "E = (\<Sum>z\<leftarrow>zip a b. \<bar>valof (fst z)\<bar> * \<bar>valof (snd z)\<bar>)"
  have E0: "0 \<le> E" unfolding E_def by (rule sum_list_nonneg) auto
  have "E\<^sup>2 \<le> (\<Sum>z\<leftarrow>zip a b. \<bar>valof (fst z)\<bar> * \<bar>valof (fst z)\<bar>)
              * (\<Sum>z\<leftarrow>zip a b. \<bar>valof (snd z)\<bar> * \<bar>valof (snd z)\<bar>)"
    unfolding E_def by (rule cauchy_schwarz_list)
  also have "(\<Sum>z\<leftarrow>zip a b. \<bar>valof (fst z)\<bar> * \<bar>valof (fst z)\<bar>) = norm2 a"
    using zip_sum_fst(1)[OF assms, of "\<lambda>x. \<bar>valof x\<bar> * \<bar>valof x\<bar>"] by (simp add: norm2_def)
  also have "(\<Sum>z\<leftarrow>zip a b. \<bar>valof (snd z)\<bar> * \<bar>valof (snd z)\<bar>) = norm2 b"
    using zip_sum_fst(2)[OF assms, of "\<lambda>x. \<bar>valof x\<bar> * \<bar>valof x\<bar>"] by (simp add: norm2_def)
  finally have "E \<le> sqrt (norm2 a * norm2 b)" by (rule real_le_rsqrt)
  then show ?thesis by (simp add: E_def abs_mult real_sqrt_mult)
qed

lemma cosine_range:
  assumes len: "length a = length b" and n: "length a \<le> 2 ^ 20"
    and ra: "\<forall>x\<in>set a. in_range x" and rb: "\<forall>x\<in>set b. in_range x"
    and nza: "\<exists>x\<in>set a. \<not> is_zero x" and nzb: "\<exists>x\<in>set b. \<not> is_zero x"
  shows "is_finite (cosineSimilarity a b)"
    "\<bar>valof (cosineSimilarity a b)\<bar> \<le> 1 + (real (length a) + 3) / 2 ^ 50"
proof -
  define N where "N = length a"
  define A where "A = norm2 a"
  define B where "B = norm2 b"
  define ma where "ma = dsqrt (sum_squares a)"
  define mb where "mb = dsqrt (sum_squares b)"
  define D where "D = dot_product a b"
  define P where "P = dmul ma mb"
  define G where "G = sqrt A * sqrt B"
  define c1 where "c1 = (1 + rnd) ^ (N + 1)"
  define c2 where "c2 = (1 - rnd) ^ (2 * N + 5)"
  have nb: "length b \<le> 2 ^ 20" using n len by simp
  note fa = norm_facts[OF ra n nza, folded A_def ma_def N_def]
  note fb = norm_facts[OF rb nb nzb, folded B_def mb_def, unfolded len[symmetric], folded N_def]
  have cos: "cosineSimilarity a b = ddiv D P"
    by (simp add: cosineSimilarity_def Let_def D_def P_def ma_def mb_def)
  have Apos: "0 < A" "0 < B"
    using fa(6) fb(6) pow2_pos[of "- 1000"] by linarith+
  have Gpos: "0 < G" using Apos by (simp add: G_def)
  have mpos: "0 < valof ma" "0 < valof mb"
    using fa(11) fb(11) pow2_pos[of "- 501"] by linarith+
  have "pow2 (- 501) * pow2 (- 501) \<le> valof ma * valof mb"
    using fa(11) fb(11) mpos by (intro mult_mono) simp_all
  then have plo: "pow2 (- 1002) \<le> valof ma * valof mb" using pow2_add[of "- 501" "- 501"] by simp
  have "valof ma * valof mb \<le> (pow2 511 * (1 + rnd)) * (pow2 511 * (1 + rnd))"
    using fa(12) fb(12) mpos by (intro mult_mono) simp_all
  also have "\<dots> = pow2 1022 * ((1 + rnd) * (1 + rnd))"
    using pow2_add[of 511 511] by (simp add: algebra_simps)
  also have "\<dots> < pow2 1022 * 2"
    by (intro mult_strict_left_mono) (simp_all add: rnd_def)
  also have "\<dots> = pow2 1023" using pow2_Suc[of 1023] by simp
  finally have phi: "valof ma * valof mb < pow2 1023" .
  have mm: "0 < valof ma * valof mb" using mpos by (rule mult_pos_pos)
  have "pow2 (- 1022) \<le> pow2 (- 1002)" by simp
  then have "pow2 (- 1022) \<le> valof ma * valof mb" using plo by linarith
  then have "pow2 (- 1022) \<le> \<bar>valof ma * valof mb\<bar>" "\<bar>valof ma * valof mb\<bar> < pow2 1023"
    using phi mm by (simp_all only: abs_of_pos)
  then have pe: "is_finite P" "\<bar>valof P - valof ma * valof mb\<bar> \<le> \<bar>valof ma * valof mb\<bar> * rnd"
    using dmul_error[OF fa(8) fb(8), folded ma_def mb_def P_def] by simp_all
  have "valof ma * valof mb - valof ma * valof mb * rnd \<le> valof P"
    using pe(2) unfolding abs_of_pos[OF mm] by linarith
  then have P1: "valof ma * valof mb * (1 - rnd) \<le> valof P" by (simp add: algebra_simps)
  have "(sqrt A * (1 - rnd) ^ (N + 2)) * (sqrt B * (1 - rnd) ^ (N + 2)) \<le> valof ma * valof mb"
    using fa(10) fb(10) Apos mpos by (intro mult_mono) simp_all
  then have "(sqrt A * (1 - rnd) ^ (N + 2)) * (sqrt B * (1 - rnd) ^ (N + 2)) * (1 - rnd)
             \<le> valof ma * valof mb * (1 - rnd)"
    by (intro mult_right_mono) simp_all
  moreover have "(sqrt A * (1 - rnd) ^ (N + 2)) * (sqrt B * (1 - rnd) ^ (N + 2)) * (1 - rnd) = G * c2"
  proof -
    have "2 * N + 5 = (N + 2) + (N + 2) + 1" by simp
    then have "c2 = (1 - rnd) ^ (N + 2) * (1 - rnd) ^ (N + 2) * (1 - rnd)"
      unfolding c2_def by (simp only: power_add power_one_right)
    then show ?thesis by (simp only: G_def) (simp only: mult_ac)
  qed
  ultimately have P2: "G * c2 \<le> valof P" using P1 by linarith
  have c2pos: "0 < c2" unfolding c2_def by (intro zero_less_power) simp
  have "0 < G * c2" using Gpos c2pos by (rule mult_pos_pos)
  then have Ppos: "0 < valof P" using P2 by linarith
  have Pd: "is_double P" unfolding P_def by (rule dmul_is_double)
  have rz: "\<forall>z\<in>set (zip a b). in_range (fst z) \<and> in_range (snd z)"
    using ra rb by (auto dest: set_zip_leftD set_zip_rightD)
  have lz: "length (zip a b) \<le> 2 ^ 20" using n len by simp
  note pb = products_bounds[OF rz lz, folded dot_product_fold[OF len] D_def]
  have lzN: "length (zip a b) = N" using len by (simp add: N_def)
  have "(\<Sum>z\<leftarrow>zip a b. \<bar>valof (fst z) * valof (snd z)\<bar>) \<le> G"
    unfolding G_def A_def B_def by (rule dot_abs_le[OF len])
  then have "(\<Sum>z\<leftarrow>zip a b. \<bar>valof (fst z) * valof (snd z)\<bar>) * c1 \<le> G * c1"
    unfolding c1_def by (intro mult_right_mono) simp_all
  then have D1: "\<bar>valof D\<bar> \<le> G * c1" using pb(3) unfolding lzN c1_def by linarith
  define x where "x = valof D / valof P"
  have "\<bar>x\<bar> = \<bar>valof D\<bar> / valof P" using Ppos by (simp add: x_def)
  also have "\<dots> \<le> (G * c1) / (G * c2)"
    using D1 P2 Gpos c2pos by (intro frac_le) simp_all
  also have "\<dots> = c1 / c2" using Gpos by simp
  finally have x1: "\<bar>x\<bar> \<le> c1 / c2" .
  have c1ge: "1 \<le> c1" unfolding c1_def by (intro one_le_power) simp
  have c2le: "c2 \<le> 1" unfolding c2_def by (intro power_le_one) simp_all
  have "c1 / c2 * (1 + rnd) = (1 + rnd) ^ (N + 2) / c2"
    unfolding c1_def by (simp only: power_add power_one_right numeral_2_eq_2 add_Suc_right add_0_right power_Suc
                          times_divide_eq_left One_nat_def) (simp only: mult_ac)
  moreover have "(1 + rnd) ^ (N + 2) / c2 \<le> 1 + (real N + 3) / 2 ^ 50"
    unfolding c2_def by (rule final_bound) (use n in \<open>simp add: N_def\<close>)
  ultimately have K: "c1 / c2 * (1 + rnd) \<le> 1 + (real N + 3) / 2 ^ 50"
    by (simp only:)
  have K1: "1 \<le> c1 / c2" using c1ge c2le c2pos by (simp add: pos_le_divide_eq)
  have "c1 / c2 * 1 \<le> c1 / c2 * (1 + rnd)" using K1 by (intro mult_left_mono) simp_all
  then have "c1 / c2 \<le> c1 / c2 * (1 + rnd)" by (simp only: mult_1_right)
  then have K2: "c1 / c2 \<le> 1 + (real N + 3) / 2 ^ 50" using K by linarith
  have "real N \<le> real ((2::nat) ^ 20)" using n unfolding N_def by (simp only: of_nat_le_iff)
  then have "1 + (real N + 3) / 2 ^ 50 \<le> 2" by simp
  moreover have p1: "pow2 1 = 2" using pow2_nat[of 1] by simp
  have "pow2 1 < pow2 1023" by simp
  then have "2 < pow2 1023" unfolding p1 .
  ultimately have xs: "\<bar>x\<bar> < pow2 1023" using x1 K2 by linarith
  have v: "valof P \<noteq> 0" using Ppos by simp
  have res: "is_finite (ddiv D P) \<and> \<bar>valof (ddiv D P)\<bar> \<le> 1 + (real N + 3) / 2 ^ 50"
  proof (cases "pow2 (- 1022) \<le> \<bar>x\<bar>")
    case True
    have e: "is_finite (ddiv D P)" "\<bar>valof (ddiv D P) - x\<bar> \<le> \<bar>x\<bar> * rnd"
      using ddiv_error[OF pb(1) pe(1) Pd] True xs by (simp_all add: x_def)
    have "\<bar>valof (ddiv D P)\<bar> \<le> \<bar>x\<bar> + \<bar>x\<bar> * rnd" using e(2) by linarith
    also have "\<dots> = \<bar>x\<bar> * (1 + rnd)" by (simp add: algebra_simps)
    also have "\<dots> \<le> c1 / c2 * (1 + rnd)" using x1 by (intro mult_right_mono) simp_all
    finally show ?thesis using e(1) K by linarith
  next
    case False
    then have "\<bar>valof D / valof P\<bar> < pow2 (- 1022)" by (simp add: x_def)
    from ddiv_small[OF pb(1) pe(1) Pd v this]
    have e: "is_finite (ddiv D P)" "\<bar>valof (ddiv D P)\<bar> \<le> pow2 (- 1022)" by simp_all
    have a1: "pow2 (- 1022) \<le> 1" using pow2_le_iff[of "- 1022" 0] by simp
    have a2: "0 \<le> (real N + 3) / 2 ^ 50" by simp
    have "pow2 (- 1022) \<le> 1 + (real N + 3) / 2 ^ 50" using a1 a2 by linarith
    then show ?thesis using e by linarith
  qed
  show "is_finite (cosineSimilarity a b)"
    "\<bar>valof (cosineSimilarity a b)\<bar> \<le> 1 + (real (length a) + 3) / 2 ^ 50"
    using res unfolding cos N_def by simp_all
qed

subsection \<open>The cosine similarity of a vector with itself\<close>

lemma cosine_self:
  assumes n: "length a \<le> 2 ^ 20" and ra: "\<forall>x\<in>set a. in_range x"
    and nza: "\<exists>x\<in>set a. \<not> is_zero x"
  shows "\<bar>valof (cosineSimilarity a a) - 1\<bar> \<le> 1 / 2 ^ 50"
proof -
  define s where "s = sum_squares a"
  define m where "m = dsqrt s"
  define P where "P = dmul m m"
  define r where "r = sqrt (valof s)"
  note fa = norm_facts[OF ra n nza, folded s_def m_def]
  have dot: "dot_product a a = s"
    unfolding s_def sum_squares_fold by (rule dot_product_fold) simp
  have cos: "cosineSimilarity a a = ddiv s P"
    by (simp add: cosineSimilarity_def Let_def dot P_def m_def s_def[symmetric])
  have spos: "0 < valof s" by (rule fa(7))
  have rpos: "0 < r" using spos by (simp add: r_def)
  have rr: "r * r = valof s" using spos by (simp add: r_def)
  have mpos: "0 < valof m" using fa(11) pow2_pos[of "- 501"] by linarith
  have mm: "0 < valof m * valof m" using mpos mpos by (rule mult_pos_pos)
  have "pow2 (- 501) * pow2 (- 501) \<le> valof m * valof m"
    using fa(11) mpos by (intro mult_mono) simp_all
  then have plo: "pow2 (- 1002) \<le> valof m * valof m" using pow2_add[of "- 501" "- 501"] by simp
  have "valof m * valof m \<le> (pow2 511 * (1 + rnd)) * (pow2 511 * (1 + rnd))"
    using fa(12) mpos by (intro mult_mono) simp_all
  also have "\<dots> = pow2 1022 * ((1 + rnd) * (1 + rnd))"
    using pow2_add[of 511 511] by (simp add: algebra_simps)
  also have "\<dots> < pow2 1022 * 2"
    by (intro mult_strict_left_mono) (simp_all add: rnd_def)
  also have "\<dots> = pow2 1023" using pow2_Suc[of 1023] by simp
  finally have phi: "valof m * valof m < pow2 1023" .
  have "pow2 (- 1022) \<le> pow2 (- 1002)" by simp
  then have "pow2 (- 1022) \<le> valof m * valof m" using plo by linarith
  then have "pow2 (- 1022) \<le> \<bar>valof m * valof m\<bar>" "\<bar>valof m * valof m\<bar> < pow2 1023"
    using phi mm by (simp_all only: abs_of_pos)
  then have pe: "is_finite P" "\<bar>valof P - valof m * valof m\<bar> \<le> \<bar>valof m * valof m\<bar> * rnd"
    using dmul_error[OF fa(8) fa(8), folded m_def P_def] by simp_all
  have "valof m * valof m - valof m * valof m * rnd \<le> valof P"
      "valof P \<le> valof m * valof m + valof m * valof m * rnd"
    using pe(2) unfolding abs_of_pos[OF mm] by linarith+
  then have P1: "valof m * valof m * (1 - rnd) \<le> valof P" "valof P \<le> valof m * valof m * (1 + rnd)"
    by (simp_all add: algebra_simps)
  have "r - r * rnd \<le> valof m" "valof m \<le> r + r * rnd"
    using fa(9) unfolding r_def[symmetric] by linarith+
  then have m1: "r * (1 - rnd) \<le> valof m" "valof m \<le> r * (1 + rnd)"
    by (simp_all add: algebra_simps)
  have m0: "0 \<le> r * (1 - rnd)" using rpos by simp
  have "(r * (1 - rnd)) * (r * (1 - rnd)) \<le> valof m * valof m"
    using m1(1) m0 by (intro mult_mono) simp_all
  then have "(r * (1 - rnd)) * (r * (1 - rnd)) * (1 - rnd) \<le> valof m * valof m * (1 - rnd)"
    by (intro mult_right_mono) simp_all
  moreover have "(r * (1 - rnd)) * (r * (1 - rnd)) * (1 - rnd) = valof s * (1 - rnd) ^ 3"
    unfolding rr[symmetric] power3_eq_cube by (simp only: mult_ac)
  ultimately have lo: "valof s * (1 - rnd) ^ 3 \<le> valof P" using P1(1) by linarith
  have "valof m * valof m \<le> (r * (1 + rnd)) * (r * (1 + rnd))"
    using m1(2) mpos by (intro mult_mono) simp_all
  then have "valof m * valof m * (1 + rnd) \<le> (r * (1 + rnd)) * (r * (1 + rnd)) * (1 + rnd)"
    by (intro mult_right_mono) simp_all
  moreover have "(r * (1 + rnd)) * (r * (1 + rnd)) * (1 + rnd) = valof s * (1 + rnd) ^ 3"
    unfolding rr[symmetric] power3_eq_cube by (simp only: mult_ac)
  ultimately have hi: "valof P \<le> valof s * (1 + rnd) ^ 3" using P1(2) by linarith
  have d3: "0 < (1 - rnd) ^ 3" "0 < (1 + rnd) ^ 3" by (simp_all add: rnd_def)
  have "0 < valof s * (1 - rnd) ^ 3" using spos d3(1) by (rule mult_pos_pos)
  then have Ppos: "0 < valof P" using lo by linarith
  define x where "x = valof s / valof P"
  have xpos: "0 < x" using spos Ppos by (simp add: x_def)
  have "valof s / (valof s * (1 + rnd) ^ 3) \<le> x"
    unfolding x_def using hi Ppos spos by (intro divide_left_mono) simp_all
  then have x1: "1 / (1 + rnd) ^ 3 \<le> x" using spos by simp
  have "x \<le> valof s / (valof s * (1 - rnd) ^ 3)"
    unfolding x_def using lo Ppos spos d3 by (intro divide_left_mono) simp_all
  then have x2: "x \<le> 1 / (1 - rnd) ^ 3" using spos by simp
  have "pow2 (- 3) = 1 / 8" using pow2_diff[of 0 3] pow2_nat[of 3] by simp
  moreover have "pow2 (- 1022) \<le> pow2 (- 3)" by simp
  ultimately have a1: "pow2 (- 1022) \<le> 1 / 8" by (simp only:)
  have a2: "(1 + rnd) ^ 3 \<le> 8" by (simp add: rnd_def power3_eq_cube)
  have "1 / 8 \<le> 1 / (1 + rnd) ^ 3" using a2 d3(2) by (intro divide_left_mono) simp_all
  then have xl: "pow2 (- 1022) \<le> \<bar>x\<bar>" using a1 x1 xpos by linarith
  have a3: "1 / (1 - rnd) ^ 3 \<le> 8" by (simp add: rnd_def power3_eq_cube field_simps)
  have p3: "pow2 3 = 8" using pow2_nat[of 3] by simp
  have "pow2 3 < pow2 1023" by simp
  then have "8 < pow2 1023" unfolding p3 .
  then have xh: "\<bar>x\<bar> < pow2 1023" using a3 x2 xpos by linarith
  have Pd: "is_double P" unfolding P_def by (rule dmul_is_double)
  have e: "\<bar>valof (ddiv s P) - x\<bar> \<le> \<bar>x\<bar> * rnd"
    using ddiv_error[OF fa(1) pe(1) Pd] xl xh by (simp add: x_def)
  have "x - x * rnd \<le> valof (ddiv s P)" "valof (ddiv s P) \<le> x + x * rnd"
    using e unfolding abs_of_pos[OF xpos] by linarith+
  then have q1: "x * (1 - rnd) \<le> valof (ddiv s P)" "valof (ddiv s P) \<le> x * (1 + rnd)"
    by (simp_all add: algebra_simps)
  have "x * (1 + rnd) \<le> 1 / (1 - rnd) ^ 3 * (1 + rnd)" using x2 by (intro mult_right_mono) simp_all
  then have u1: "x * (1 + rnd) \<le> (1 + rnd) / (1 - rnd) ^ 3"
    by (simp only: times_divide_eq_left mult_1)
  have up: "valof (ddiv s P) \<le> 1 + 1 / 2 ^ 50"
    by (rule order_trans[OF q1(2) order_trans[OF u1 self_bounds(1)]])
  have "1 / (1 + rnd) ^ 3 * (1 - rnd) \<le> x * (1 - rnd)" using x1 by (intro mult_right_mono) simp_all
  then have l1: "(1 - rnd) / (1 + rnd) ^ 3 \<le> x * (1 - rnd)"
    by (simp only: times_divide_eq_left mult_1)
  have dn: "1 - 1 / 2 ^ 50 \<le> valof (ddiv s P)"
    by (rule order_trans[OF self_bounds(2) order_trans[OF l1 q1(1)]])
  show ?thesis unfolding cos using up dn by linarith
qed
section \<open>The bounds on cosine similarity\<close>

text \<open>
  Claim C9, as the code has it. The function computes the formula in binary64 arithmetic
  and rounds every operation. For two vectors of the same dimension \<open>n \<le> 2\<^sup>2\<^sup>0\<close>, neither
  of them all zeros, whose components are zero or of magnitude at least \<open>2\<^sup>-\<^sup>5\<^sup>0\<^sup>0\<close> and
  below \<open>2\<^sup>5\<^sup>0\<^sup>0\<close>, the result is a finite number of magnitude at most
  \<open>1 + (n + 3) * 2\<^sup>-\<^sup>5\<^sup>0\<close>; and the result for such a vector and itself is a finite number
  that differs from \<open>1\<close> by at most \<open>2\<^sup>-\<^sup>5\<^sup>0\<close>.
\<close>

theorem cosineSimilarity_bounds:
  assumes "length a = length b" "length a \<le> 2 ^ 20"
    and "\<forall>x\<in>set a. in_range x" "\<forall>x\<in>set b. in_range x"
    and "\<exists>x\<in>set a. \<not> is_zero x" "\<exists>x\<in>set b. \<not> is_zero x"
  shows "is_finite (cosineSimilarity a b)
         \<and> \<bar>valof (cosineSimilarity a b)\<bar> \<le> 1 + (real (length a) + 3) / 2 ^ 50
         \<and> is_finite (cosineSimilarity a a)
         \<and> \<bar>valof (cosineSimilarity a a) - 1\<bar> \<le> 1 / 2 ^ 50"
  using cosine_range[OF assms] cosine_range(1)[OF refl assms(2,3,3,5,5)]
    cosine_self[OF assms(2,3,5)] by simp

theorem cosineSimilarity_bounds_witness:
  "length [one, one, one] = length [one, zero, one] \<and> in_range one \<and> in_range zero
   \<and> \<not> is_zero one
   \<and> is_finite (cosineSimilarity [one, one, one] [one, zero, one])
   \<and> \<bar>valof (cosineSimilarity [one, one, one] [one, zero, one])\<bar> \<le> 1 + 6 / 2 ^ 50
   \<and> is_finite (cosineSimilarity [one, one, one] [one, one, one])
   \<and> \<bar>valof (cosineSimilarity [one, one, one] [one, one, one]) - 1\<bar> \<le> 1 / 2 ^ 50"
  using cosineSimilarity_bounds[of "[one, one, one]" "[one, zero, one]"]
  by (simp add: in_range_def one_def zero_def)

text \<open>
  Claim C9 as stated fails for the function on numbers of the format: for \<open>v = [1, 1]\<close> the
  result of \<open>cosineSimilarity(v, v)\<close> is \<open>0.9999999999999998\<close>, which is not \<open>1\<close>, and for
  \<open>v = [1, 1, 1]\<close> it is \<open>1.0000000000000002\<close>, which is outside \<open>[-1, 1]\<close>. And for the
  vector \<open>v = [2\<^sup>-\<^sup>5\<^sup>4\<^sup>8]\<close>, whose square underflows to zero, the result of
  \<open>cosineSimilarity(v, v)\<close> is \<open>NaN\<close> and the result of \<open>cosineSimilarity(v, [1])\<close> is
  \<open>Infinity\<close>.
\<close>

theorem cosineSimilarity_rounding_counterexample:
  "cosineSimilarity [one, one] [one, one] = Fin False 9007199254740990 (- 53)
   \<and> dless (cosineSimilarity [one, one] [one, one]) one
   \<and> cosineSimilarity [one, one, one] [one, one, one] = Fin False 4503599627370497 (- 52)
   \<and> dless one (cosineSimilarity [one, one, one] [one, one, one])
   \<and> is_double (Fin False (2 ^ 52) (- 600)) \<and> \<not> is_zero (Fin False (2 ^ 52) (- 600))
   \<and> cosineSimilarity [Fin False (2 ^ 52) (- 600)] [Fin False (2 ^ 52) (- 600)] = NaN
   \<and> cosineSimilarity [Fin False (2 ^ 52) (- 600)] [one] = Inf False"
proof -
  have a: "cosineSimilarity [one, one] [one, one] = Fin False 9007199254740990 (- 53)"
    by (simp add: double_eval)
  have b: "cosineSimilarity [one, one, one] [one, one, one] = Fin False 4503599627370497 (- 52)"
    by (simp add: double_eval)
  have c: "cosineSimilarity [Fin False (2 ^ 52) (- 600)] [Fin False (2 ^ 52) (- 600)] = NaN"
    by (simp add: double_eval)
  have d: "cosineSimilarity [Fin False (2 ^ 52) (- 600)] [one] = Inf False"
    by (simp add: double_eval)
  show ?thesis unfolding a b c d by (simp add: one_def signed_def is_double_def)
qed
section \<open>Properties of question answering\<close>

text \<open>
  Claim C10. The handler of \<open>/ask\<close> ranks with the fixed bound \<open>5\<close>. For a question that is
  not empty and a store of \<open>n > 0\<close> chunks, when the embedding provider answers, the
  handler sorts the scored chunks of the whole store and takes the first five of the
  result: these are \<open>min 5 n\<close> scored chunks of the store. The request to the completion
  provider is the fixed instruction, the texts of these chunks joined by blank lines, and
  the question; when the provider answers, the reply carries its answer and cites the ids
  of these chunks, in the same order, and when it fails, the reply is the error.
\<close>

theorem ask_top_five:
  assumes "question \<noteq> []" "CHUNKS s \<noteq> []"
    and "embeddings_create env 0 question = Inr qEmbed"
  shows "ask env question s =
           (case chat_completions_create env
                   (js ''Answer the question using this context:'' @ [0x0A, 0x0A]
                    @ js_join [0x0A, 0x0A] (map ctext (ranked 5 qEmbed (CHUNKS s)))
                    @ [0x0A, 0x0A] @ js ''Q: '' @ question) of
              Inl err \<Rightarrow> ErrorReply 500 (message_or err ''QA error'')
            | Inr answer \<Rightarrow> Answered answer (map cid (ranked 5 qEmbed (CHUNKS s))))
         \<and> ranked 5 qEmbed (CHUNKS s)
             = take 5 (js_sort compare_scores (map (with_score qEmbed) (CHUNKS s)))
         \<and> mset (js_sort compare_scores (map (with_score qEmbed) (CHUNKS s)))
             = mset (map (with_score qEmbed) (CHUNKS s))
         \<and> length (ranked 5 qEmbed (CHUNKS s)) = min 5 (length (CHUNKS s))
         \<and> mset (ranked 5 qEmbed (CHUNKS s)) \<subseteq># mset (map (with_score qEmbed) (CHUNKS s))"
proof -
  have "mset (take 5 (js_sort compare_scores (map (with_score qEmbed) (CHUNKS s))))
        \<subseteq># mset (js_sort compare_scores (map (with_score qEmbed) (CHUNKS s)))"
    by (metis append_take_drop_id mset_append mset_subset_eq_add_left)
  moreover have r: "ranked 5 qEmbed (CHUNKS s)
                    = take 5 (js_sort compare_scores (map (with_score qEmbed) (CHUNKS s)))"
    by (simp add: ranked_def js_slice_take_numeral)
  ultimately show ?thesis
    unfolding r using assms
    by (simp add: ask_def ask_prompt_def Let_def r min.commute)
qed

theorem ask_top_five_witness:
  "ask \<lparr>embeddings_create = (\<lambda>k t. Inr [one, zero]), date_now = (\<lambda>i. 0),
        extract_text = (\<lambda>kind p. Inr []), toLowerCase = (\<lambda>x. x),
        toUpperCase = (\<lambda>x. x), unlinkSync = (\<lambda>p. None),
        chat_completions_create = (\<lambda>content. Inr content)\<rparr>
       (js ''q'')
       \<lparr>CHUNKS = [other_chunk, unit_chunk, other_chunk, other_chunk, other_chunk, other_chunk],
        DATA_FILE = None\<rparr>
   = Answered
       (js ''Answer the question using this context:'' @ [0x0A, 0x0A]
        @ js ''match'' @ [0x0A, 0x0A] @ js ''other'' @ [0x0A, 0x0A] @ js ''other''
        @ [0x0A, 0x0A] @ js ''other'' @ [0x0A, 0x0A] @ js ''other''
        @ [0x0A, 0x0A] @ js ''Q: '' @ js ''q'')
       [js ''doc_2_0'', js ''doc_3_0'', js ''doc_3_0'', js ''doc_3_0'', js ''doc_3_0'']"
proof -
  have c: "consistent compare_scores
             (map (with_score [one, zero])
                [other_chunk, unit_chunk, other_chunk, other_chunk, other_chunk, other_chunk])"
    by (rule consistent_good) (simp add: example_scores_good)
  have ev: "ranked 5 [one, zero]
              [other_chunk, unit_chunk, other_chunk, other_chunk, other_chunk, other_chunk]
            = [with_score [one, zero] unit_chunk, with_score [one, zero] other_chunk,
               with_score [one, zero] other_chunk, with_score [one, zero] other_chunk,
               with_score [one, zero] other_chunk]"
    unfolding ranked_def js_sort_consistent[OF c]
    by (simp add: rank_eval unit_scores numeral_eq_Suc)
       (simp add: zero_def one_def signed_def round_double_def round_at_def pack_def compute_bitlen)
  show ?thesis
    using ask_top_five[of "js ''q''"
        "\<lparr>CHUNKS = [other_chunk, unit_chunk, other_chunk, other_chunk, other_chunk, other_chunk],
          DATA_FILE = None\<rparr>"
        "\<lparr>embeddings_create = (\<lambda>k t. Inr [one, zero]), date_now = (\<lambda>i. 0),
          extract_text = (\<lambda>kind p. Inr []), toLowerCase = (\<lambda>x. x),
          toUpperCase = (\<lambda>x. x), unlinkSync = (\<lambda>p. None),
          chat_completions_create = (\<lambda>content. Inr content)\<rparr>"
        "[one, zero]"] ev
    by (simp add: js_def) (simp add: with_score_def unit_chunk_def other_chunk_def js_def)
qed
section \<open>Properties of the crawler\<close>

lemma crawl_call_inv:
  assumes "crawl_inv baseUrl visited0 st" "prefix baseUrl u"
  shows "crawl_inv baseUrl visited0 (crawl_call maxPages u st)"
  using assms by (auto simp: crawl_inv_def crawl_call_def)

lemma follow_link_inv:
  assumes "crawl_inv baseUrl visited0 st"
  shows "crawl_inv baseUrl visited0 (follow_link w baseUrl maxPages st link)"
  using assms by (simp add: follow_link_def Let_def crawl_call_inv)

lemma follow_links_inv:
  assumes "crawl_inv baseUrl visited0 st"
  shows "crawl_inv baseUrl visited0 (foldl (follow_link w baseUrl maxPages) st links)"
  using assms by (induction links arbitrary: st) (simp_all add: follow_link_inv)

lemma crawl_resume_inv:
  assumes "crawl_inv baseUrl visited0 st" "u \<in> set (fetched st)"
    and "u \<notin> set (pending st)" "u \<notin> url ` set (pages st)"
  shows "crawl_inv baseUrl visited0 (crawl_resume w baseUrl maxPages u st)"
proof (cases "axios_get w u")
  case (Inl err)
  then show ?thesis using assms(1) by (simp add: crawl_resume_def)
next
  case (Inr d)
  have "crawl_inv baseUrl visited0
          (st\<lparr>pages := pages st @ [\<lparr>url = u, page_text = extract_page_text d\<rparr>]\<rparr>)"
    using assms by (auto simp: crawl_inv_def)
  then show ?thesis
    using Inr assms(1) by (simp add: crawl_resume_def follow_links_inv)
qed

lemma crawl_step_inv:
  assumes "crawl_inv baseUrl visited0 st"
  shows "crawl_inv baseUrl visited0 (crawl_step w baseUrl maxPages st k)"
proof (cases "k < length (pending st)")
  case False
  then show ?thesis using assms by (simp add: crawl_step_def)
next
  case True
  define rest where "rest = take k (pending st) @ drop (Suc k) (pending st)"
  define u where "u = pending st ! k"
  have split: "pending st = take k (pending st) @ u # drop (Suc k) (pending st)"
    using True by (simp add: u_def id_take_nth_drop)
  have d: "distinct (map url (pages st) @ pending st)"
    and sub: "set (map url (pages st) @ pending st) \<subseteq> set (fetched st)"
    using assms by (simp_all add: crawl_inv_def)
  have d': "distinct (map url (pages st) @ take k (pending st) @ u # drop (Suc k) (pending st))"
    using d split by simp
  have u1: "u \<notin> set rest" "u \<notin> url ` set (pages st)"
    using d' by (auto simp: rest_def)
  have u2: "u \<in> set (fetched st)" using sub split by (metis Un_iff list.set_intros(1) set_append subsetD)
  have dr: "distinct (map url (pages st) @ rest)" using d' by (auto simp: rest_def)
  have sr: "set (map url (pages st) @ rest) \<subseteq> set (fetched st)"
    using sub by (auto simp: rest_def dest: in_set_takeD in_set_dropD)
  have "crawl_inv baseUrl visited0 (st\<lparr>pending := rest\<rparr>)"
    using assms dr sr by (simp add: crawl_inv_def)
  then have "crawl_inv baseUrl visited0 (crawl_resume w baseUrl maxPages u (st\<lparr>pending := rest\<rparr>))"
    by (rule crawl_resume_inv) (use u1 u2 in simp_all)
  then show ?thesis using True by (simp add: crawl_step_def rest_def u_def)
qed

lemma crawlWebsite_inv:
  "crawl_inv baseUrl visited0 (crawlWebsite w baseUrl visited0 maxPages)"
  unfolding crawlWebsite_def
  by (intro crawl_step_inv crawl_call_inv) (simp_all add: crawl_inv_def)

lemma crawl_later_inv:
  "crawl_inv baseUrl visited0 (crawl_later w baseUrl visited0 maxPages schedule)"
proof -
  have "crawl_inv baseUrl visited0 st
        \<Longrightarrow> crawl_inv baseUrl visited0 (foldl (crawl_step w baseUrl maxPages) st schedule)" for st
    by (induction schedule arbitrary: st) (simp_all add: crawl_step_inv)
  then show ?thesis unfolding crawl_later_def using crawlWebsite_inv by blast
qed

text \<open>
  Whatever the order of the responses, no URL is requested twice, every URL requested
  starts with \<open>baseUrl\<close>, and the pages recorded belong to distinct requests.
\<close>

lemma crawl_requests_once_in_scope:
  "distinct (fetched (crawl_later w baseUrl visited0 maxPages schedule))
   \<and> (\<forall>u\<in>set (fetched (crawl_later w baseUrl visited0 maxPages schedule)). prefix baseUrl u)
   \<and> distinct (map url (pages (crawl_later w baseUrl visited0 maxPages schedule)))
   \<and> url ` set (pages (crawl_later w baseUrl visited0 maxPages schedule))
       \<subseteq> set (fetched (crawl_later w baseUrl visited0 maxPages schedule))"
  using crawl_later_inv[of baseUrl visited0 w maxPages schedule]
  by (auto simp: crawl_inv_def)

lemma follow_link_pages [simp]: "pages (follow_link w baseUrl maxPages st link) = pages st"
  by (simp add: follow_link_def crawl_call_def Let_def)

lemma follow_links_pages [simp]:
  "pages (foldl (follow_link w baseUrl maxPages) st links) = pages st"
  by (induction links arbitrary: st) simp_all

text \<open>
  When \<open>crawlWebsite\<close> returns, only the response for \<open>baseUrl\<close> has been handled: the array
  returned holds at most the page of \<open>baseUrl\<close>.
\<close>

lemma crawlWebsite_returns_at_most_one:
  "length (pages (crawlWebsite w baseUrl visited0 maxPages)) \<le> 1"
  by (simp add: crawlWebsite_def crawl_step_def crawl_call_def crawl_resume_def
      split: sum.splits)

text \<open>
  A link leads to a request exactly when it is not empty, its part before \<open>#\<close>, resolved
  against \<open>baseUrl\<close>, starts with \<open>baseUrl\<close> and is not in \<open>visited\<close>, and fewer than
  \<open>maxPages\<close> pages are recorded. The URL of the page that holds the link plays no part.
\<close>

lemma follow_link_sends_iff:
  "fetched (follow_link w baseUrl maxPages st link) \<noteq> fetched st \<longleftrightarrow>
     link \<noteq> []
     \<and> prefix baseUrl (url_resolve w baseUrl (takeWhile (\<lambda>c. c \<noteq> 0x23) link))
     \<and> url_resolve w baseUrl (takeWhile (\<lambda>c. c \<noteq> 0x23) link) \<notin> visited st
     \<and> int (length (pages st)) < maxPages"
  by (auto simp: follow_link_def crawl_call_def Let_def)

lemmas crawl_eval =
  crawlWebsite_def crawl_later_def crawl_step_def crawl_resume_def crawl_call_def
  follow_link_def extract_page_text_def example_web_def example_get_def example_resolve_def
  example_document_def js_def js_trim_def Let_def

text \<open>
  Claim C4 on the code. The bound \<open>maxPages\<close> is tested when a request is started, and the
  calls of \<open>crawl\<close> for the links of a page are started together and not awaited. On the
  example site with \<open>maxPages = 2\<close>, the page \<open>http://s/\<close> is recorded, the three calls for
  its links pass the test while one page is recorded, \<open>crawlWebsite\<close> returns the array
  with this one page, and the three responses then add their pages to the same array:
  four page records.
\<close>

theorem crawl_overshoot:
  "map url (pages (crawlWebsite example_web (js ''http://s/'') {} 2)) = [js ''http://s/'']
   \<and> map url (pages (crawl_later example_web (js ''http://s/'') {} 2 [0, 0, 0]))
       = [js ''http://s/'', js ''http://s/a'', js ''http://s/b'', js ''http://s/c'']"
  by (simp add: crawl_eval)

text \<open>
  Claim C5 on the code. A link is resolved against \<open>baseUrl\<close>, not against the URL of the
  page that holds it. On the example site crawled from \<open>http://s/docs/\<close>, the link \<open>../x\<close>
  of the page \<open>http://s/docs/a/\<close> is \<open>http://s/docs/x\<close> when resolved against its page,
  which starts with \<open>baseUrl\<close>; the crawler resolves it to \<open>http://s/x\<close>, which does not,
  and never requests \<open>http://s/docs/x\<close>.
\<close>

theorem crawl_resolves_against_base:
  "example_resolve (js ''http://s/docs/a/'') (js ''../x'') = js ''http://s/docs/x''
   \<and> prefix (js ''http://s/docs/'') (js ''http://s/docs/x'')
   \<and> fetched (crawl_later example_web (js ''http://s/docs/'') {} 100 [0, 0])
       = [js ''http://s/docs/'', js ''http://s/docs/a/'']
   \<and> pending (crawl_later example_web (js ''http://s/docs/'') {} 100 [0, 0]) = []"
  by (simp add: crawl_eval)

end
